theory Spec2Isabelle
  imports Main
begin

section \<open>Characters and strings\<close>

text \<open>
  A Python \<open>str\<close> is a sequence of Unicode code points. A character is modelled by its
  code point (Python's \<open>ord\<close>), a string by the list of its code points. \<open>py\<close> turns
  an ASCII literal into such a string.
\<close>

type_synonym pystr = "nat list"

definition py :: "string \<Rightarrow> pystr" where
  "py s = map of_char s"

text \<open>
  The classes \<open>\d\<close> and \<open>\w\<close> of a \<open>str\<close> pattern are Unicode aware. Below 128 they
  are \<open>[0-9]\<close> and \<open>[A-Za-z0-9_]\<close>; what they hold of the other code points is decided
  by the tables of the Python runtime, which are taken as a parameter.
\<close>

record unicode =
  decimal :: "nat \<Rightarrow> bool"
  alnum :: "nat \<Rightarrow> bool"

definition ascii_digit :: "nat \<Rightarrow> bool" where
  "ascii_digit c \<longleftrightarrow> of_char CHR ''0'' \<le> c \<and> c \<le> of_char CHR ''9''"

definition ascii_letter :: "nat \<Rightarrow> bool" where
  "ascii_letter c \<longleftrightarrow>
     (of_char CHR ''A'' \<le> c \<and> c \<le> of_char CHR ''Z'') \<or>
     (of_char CHR ''a'' \<le> c \<and> c \<le> of_char CHR ''z'')"

text \<open>\<open>\d\<close>\<close>

definition is_digit :: "unicode \<Rightarrow> nat \<Rightarrow> bool" where
  "is_digit U c = (if c < 128 then ascii_digit c else decimal U c)"

text \<open>\<open>[A-Za-z_]\<close>\<close>

definition is_id_start :: "nat \<Rightarrow> bool" where
  "is_id_start c \<longleftrightarrow> ascii_letter c \<or> c = of_char CHR ''_''"

text \<open>\<open>\w\<close>\<close>

definition is_word :: "unicode \<Rightarrow> nat \<Rightarrow> bool" where
  "is_word U c =
     (if c < 128 then ascii_letter c \<or> ascii_digit c \<or> c = of_char CHR ''_''
      else alnum U c)"

text \<open>\<open>[ \t\r]\<close>\<close>

definition is_blank :: "nat \<Rightarrow> bool" where
  "is_blank c \<longleftrightarrow> c = of_char CHR '' '' \<or> c = of_char (CHR 0x09) \<or> c = of_char (CHR 0x0D)"

definition LF :: nat where
  "LF = of_char (CHR 0x0A)"

definition QUOTE :: nat where
  "QUOTE = of_char (CHR 0x22)"

definition BACKSLASH :: nat where
  "BACKSLASH = of_char (CHR 0x5C)"

section \<open>The token patterns\<close>

text \<open>
  Each pattern of \<open>TOKEN_SPECIFICATION\<close> is a matcher on the text that starts at the
  cursor (\<open>code[pos:]\<close>): it returns the length of what the regular expression matches
  there, or \<open>None\<close>. No pattern looks behind the cursor or uses an anchor, so the text
  from the cursor on decides the match (\<open>re.MULTILINE\<close> only changes \<open>^\<close> and \<open>$\<close>).
\<close>

text \<open>
  \<open>(?:\.\d+)?\<close>: the length of the optional fraction. The group is tried first; when
  no digit follows the dot, it matches nothing.
\<close>

definition fraction :: "unicode \<Rightarrow> pystr \<Rightarrow> nat" where
  "fraction U s =
     (case s of
        [] \<Rightarrow> 0
      | c # cs \<Rightarrow>
          if c = of_char CHR ''.'' \<and> takeWhile (is_digit U) cs \<noteq> []
          then 1 + length (takeWhile (is_digit U) cs) else 0)"

text \<open>\<open>NUMBER: \d+(?:\.\d+)?\<close>\<close>

definition match_NUMBER :: "unicode \<Rightarrow> pystr \<Rightarrow> nat option" where
  "match_NUMBER U s =
     (let n = length (takeWhile (is_digit U) s)
      in if n = 0 then None else Some (n + fraction U (drop n s)))"

text \<open>\<open>ID: [A-Za-z_]\w*\<close>\<close>

definition match_ID :: "unicode \<Rightarrow> pystr \<Rightarrow> nat option" where
  "match_ID U s =
     (case s of
        [] \<Rightarrow> None
      | c # cs \<Rightarrow> if is_id_start c then Some (1 + length (takeWhile (is_word U) cs)) else None)"

text \<open>
  \<open>(?:\\.|[^"\\])*\<close>: the number of characters the greedy loop takes. An item is a
  backslash with any character but a line feed after it, or one character that is neither
  a quote nor a backslash. The two alternatives exclude each other on their first
  character, so the loop has one way to run.
\<close>

fun string_items :: "pystr \<Rightarrow> nat" where
  "string_items [] = 0"
| "string_items [c] = (if c \<noteq> QUOTE \<and> c \<noteq> BACKSLASH then 1 else 0)"
| "string_items (c # d # cs) =
     (if c = BACKSLASH then (if d \<noteq> LF then 2 + string_items cs else 0)
      else if c \<noteq> QUOTE then 1 + string_items (d # cs)
      else 0)"

text \<open>
  \<open>STRING: "(?:\\.|[^"\\])*"\<close>. The closing quote has to follow the items the loop
  took. Giving items back cannot help: no item starts with a quote.
\<close>

definition match_STRING :: "pystr \<Rightarrow> nat option" where
  "match_STRING s =
     (case s of
        [] \<Rightarrow> None
      | c # cs \<Rightarrow>
          if c = QUOTE then
            (case drop (string_items cs) cs of
               [] \<Rightarrow> None
             | q # _ \<Rightarrow> if q = QUOTE then Some (string_items cs + 2) else None)
          else None)"

text \<open>
  \<open>[\s\S]*?\*/\<close>: the lazy loop stops at the first \<open>*/\<close>; the result counts the
  characters through it.
\<close>

fun block_end :: "pystr \<Rightarrow> nat option" where
  "block_end (c # d # cs) =
     (if c = of_char CHR ''*'' \<and> d = of_char CHR ''/'' then Some 2
      else map_option Suc (block_end (d # cs)))"
| "block_end _ = None"

text \<open>\<open>COMMENT: //[^\n]*|/\*[\s\S]*?\*/\<close>\<close>

definition match_COMMENT :: "pystr \<Rightarrow> nat option" where
  "match_COMMENT s =
     (case s of
        c # d # cs \<Rightarrow>
          if c = of_char CHR ''/'' \<and> d = of_char CHR ''/''
          then Some (2 + length (takeWhile (\<lambda>x. x \<noteq> LF) cs))
          else if c = of_char CHR ''/'' \<and> d = of_char CHR ''*''
          then map_option (\<lambda>n. 2 + n) (block_end cs)
          else None
      | _ \<Rightarrow> None)"

text \<open>\<open>NEWLINE: \n\<close>\<close>

definition match_NEWLINE :: "pystr \<Rightarrow> nat option" where
  "match_NEWLINE s = (case s of [] \<Rightarrow> None | c # _ \<Rightarrow> if c = LF then Some 1 else None)"

text \<open>\<open>SKIP: [ \t\r]+\<close>\<close>

definition match_SKIP :: "pystr \<Rightarrow> nat option" where
  "match_SKIP s =
     (let n = length (takeWhile is_blank s) in if n = 0 then None else Some n)"

text \<open>\<open>OP: ==|!=|<=|>=|\+\+|--|->|[+\-*/%=<>!]\<close>: the two-character alternatives come first.\<close>

definition two_char_ops :: "pystr list" where
  "two_char_ops = map py [''=='', ''!='', ''<='', ''>='', ''++'', ''--'', ''->'']"

definition one_char_ops :: "nat list" where
  "one_char_ops = py ''+-*/%=<>!''"

definition match_OP :: "pystr \<Rightarrow> nat option" where
  "match_OP s =
     (if take 2 s \<in> set two_char_ops then Some 2
      else case s of [] \<Rightarrow> None | c # _ \<Rightarrow> if c \<in> set one_char_ops then Some 1 else None)"

text \<open>\<open>PUNCT: [()[\]{},;.]\<close>\<close>

definition punct_chars :: "nat list" where
  "punct_chars = py ''()[]{},;.''"

definition match_PUNCT :: "pystr \<Rightarrow> nat option" where
  "match_PUNCT s =
     (case s of [] \<Rightarrow> None | c # _ \<Rightarrow> if c \<in> set punct_chars then Some 1 else None)"

text \<open>\<open>MISMATCH: .\<close> (any character but a line feed)\<close>

definition match_MISMATCH :: "pystr \<Rightarrow> nat option" where
  "match_MISMATCH s = (case s of [] \<Rightarrow> None | c # _ \<Rightarrow> if c \<noteq> LF then Some 1 else None)"

definition TOKEN_SPECIFICATION :: "unicode \<Rightarrow> (string \<times> (pystr \<Rightarrow> nat option)) list" where
  "TOKEN_SPECIFICATION U =
     [(''NUMBER'', match_NUMBER U),
      (''ID'', match_ID U),
      (''STRING'', match_STRING),
      (''COMMENT'', match_COMMENT),
      (''NEWLINE'', match_NEWLINE),
      (''SKIP'', match_SKIP),
      (''OP'', match_OP),
      (''PUNCT'', match_PUNCT),
      (''MISMATCH'', match_MISMATCH)]"

text \<open>
  The master pattern is the alternation of the named groups in the order of the table:
  the first group that matches at the cursor wins, and its name is \<open>lastgroup\<close>.
\<close>

fun first_match :: "(string \<times> (pystr \<Rightarrow> nat option)) list \<Rightarrow> pystr \<Rightarrow> (string \<times> nat) option" where
  "first_match [] s = None"
| "first_match ((name, m) # rest) s =
     (case m s of Some n \<Rightarrow> Some (name, n) | None \<Rightarrow> first_match rest s)"

text \<open>
  \<open>MASTER_PATTERN.match(code, pos)\<close>: \<open>None\<close>, or \<open>lastgroup\<close> and \<open>end()\<close> of the match
  object (\<open>start()\<close> is \<open>pos\<close>, the match being anchored there).
\<close>

definition MASTER_PATTERN_match :: "unicode \<Rightarrow> pystr \<Rightarrow> nat \<Rightarrow> (string \<times> nat) option" where
  "MASTER_PATTERN_match U code pos =
     map_option (\<lambda>(kind, n). (kind, pos + n)) (first_match (TOKEN_SPECIFICATION U) (drop pos code))"

section \<open>Tokens and the scanner\<close>

record token =
  tok_type :: string
  tok_value :: pystr
  tok_line :: int
  tok_column :: int

text \<open>
  The \<open>SyntaxError\<close> of the scanner, with the three values its message is built from:
  the offending text, the line and the column.
\<close>

datatype error = SyntaxError pystr int int

definition KEYWORDS :: "pystr set" where
  "KEYWORDS = set (map py [''if'', ''else'', ''while'', ''for'', ''return'', ''int'', ''float'',
     ''void'', ''break'', ''continue'', ''true'', ''false''])"

text \<open>\<open>code[i:j]\<close>\<close>

definition slice :: "pystr \<Rightarrow> nat \<Rightarrow> nat \<Rightarrow> pystr" where
  "slice code i j = take (j - i) (drop i code)"

definition Token :: "string \<Rightarrow> pystr \<Rightarrow> int \<Rightarrow> int \<Rightarrow> token" where
  "Token ty v l c = \<lparr>tok_type = ty, tok_value = v, tok_line = l, tok_column = c\<rparr>"

text \<open>
  The generator yields tokens and may raise after some of them: its outcome is the list
  of the tokens yielded, with the error if it raised. \<open>yield\<close> puts a token before what
  the rest of the run yields.
\<close>

definition yield :: "token \<Rightarrow> token list \<times> error option \<Rightarrow> token list \<times> error option" where
  "yield t r = (t # fst r, snd r)"

subsection \<open>Every match takes at least one character\<close>

text \<open>
  No pattern matches the empty text, and a match stays inside the input: each turn of the
  loop moves the cursor forward, which is why the loop ends.
\<close>

lemma string_items_le: "string_items s \<le> length s"
  by (induction s rule: string_items.induct) auto

lemma block_end_bounds: "block_end s = Some n \<Longrightarrow> 2 \<le> n \<and> n \<le> length s"
  by (induction s arbitrary: n rule: block_end.induct) (auto split: if_splits)

lemma fraction_le: "fraction U s \<le> length s"
  by (auto simp: fraction_def split: list.splits intro: le_trans [OF length_takeWhile_le])

lemma match_NUMBER_bounds: "match_NUMBER U s = Some n \<Longrightarrow> 0 < n \<and> n \<le> length s"
proof -
  assume a: "match_NUMBER U s = Some n"
  let ?k = "length (takeWhile (is_digit U) s)"
  from a have k: "0 < ?k" and n: "n = ?k + fraction U (drop ?k s)"
    by (auto simp: match_NUMBER_def Let_def split: if_splits)
  have "?k \<le> length s" by (rule length_takeWhile_le)
  moreover have "fraction U (drop ?k s) \<le> length s - ?k"
    using fraction_le [of U "drop ?k s"] by simp
  ultimately show ?thesis using k n by simp
qed

lemma match_ID_bounds: "match_ID U s = Some n \<Longrightarrow> 0 < n \<and> n \<le> length s"
  by (auto simp: match_ID_def split: list.splits if_splits intro: length_takeWhile_le)

lemma match_STRING_bounds: "match_STRING s = Some n \<Longrightarrow> 0 < n \<and> n \<le> length s"
proof -
  assume a: "match_STRING s = Some n"
  then obtain c cs where s: "s = c # cs" by (cases s) (auto simp: match_STRING_def)
  from a s have n: "n = string_items cs + 2" and d: "drop (string_items cs) cs \<noteq> []"
    by (auto simp: match_STRING_def split: if_splits list.splits)
  from d have "string_items cs < length cs" by simp
  with n s show ?thesis by simp
qed

lemma match_COMMENT_bounds: "match_COMMENT s = Some n \<Longrightarrow> 0 < n \<and> n \<le> length s"
  by (auto simp: match_COMMENT_def split: list.splits if_splits
      dest: block_end_bounds intro: length_takeWhile_le)

lemma match_NEWLINE_bounds: "match_NEWLINE s = Some n \<Longrightarrow> 0 < n \<and> n \<le> length s"
  by (auto simp: match_NEWLINE_def split: list.splits if_splits)

lemma match_SKIP_bounds: "match_SKIP s = Some n \<Longrightarrow> 0 < n \<and> n \<le> length s"
  by (auto simp: match_SKIP_def Let_def split: if_splits intro: length_takeWhile_le)

lemma match_OP_bounds: "match_OP s = Some n \<Longrightarrow> 0 < n \<and> n \<le> length s"
  by (cases s; cases "tl s") (auto simp: match_OP_def two_char_ops_def py_def split: if_splits list.splits)

lemma match_PUNCT_bounds: "match_PUNCT s = Some n \<Longrightarrow> 0 < n \<and> n \<le> length s"
  by (auto simp: match_PUNCT_def split: list.splits if_splits)

lemma match_MISMATCH_bounds: "match_MISMATCH s = Some n \<Longrightarrow> 0 < n \<and> n \<le> length s"
  by (auto simp: match_MISMATCH_def split: list.splits if_splits)

lemma first_match_bounds:
  "first_match (TOKEN_SPECIFICATION U) s = Some (kind, n) \<Longrightarrow> 0 < n \<and> n \<le> length s"
  by (auto simp: TOKEN_SPECIFICATION_def split: option.splits
      dest: match_NUMBER_bounds match_ID_bounds match_STRING_bounds match_COMMENT_bounds
        match_NEWLINE_bounds match_SKIP_bounds match_OP_bounds match_PUNCT_bounds
        match_MISMATCH_bounds)

lemma MASTER_PATTERN_match_bounds:
  "MASTER_PATTERN_match U code pos = Some (kind, e) \<Longrightarrow> pos < e \<and> e \<le> length code"
  by (auto simp: MASTER_PATTERN_match_def dest!: first_match_bounds)

subsection \<open>The generator\<close>

function tokenize_loop :: "unicode \<Rightarrow> pystr \<Rightarrow> int \<Rightarrow> nat \<Rightarrow> nat \<Rightarrow> token list \<times> error option" where
  "tokenize_loop U code line line_start pos =
     (case MASTER_PATTERN_match U code pos of
        None \<Rightarrow> ([Token ''EOF'' [] line (int pos - int line_start + 1)], None)
      | Some (kind, end_mo) \<Rightarrow>
          let val = slice code pos end_mo;
              col = int pos - int line_start + 1
          in
            if kind = ''NEWLINE'' then tokenize_loop U code (line + 1) end_mo end_mo
            else if kind = ''SKIP'' \<or> kind = ''COMMENT'' then
              tokenize_loop U code line line_start end_mo
            else if kind = ''ID'' then
              yield (Token (if val \<in> KEYWORDS then ''KEYWORD'' else ''IDENT'') val line col)
                (tokenize_loop U code line line_start end_mo)
            else if kind = ''NUMBER'' then
              yield (Token ''NUMBER'' val line col) (tokenize_loop U code line line_start end_mo)
            else if kind = ''STRING'' then
              yield (Token ''STRING'' val line col) (tokenize_loop U code line line_start end_mo)
            else if kind = ''OP'' then
              yield (Token ''OP'' val line col) (tokenize_loop U code line line_start end_mo)
            else if kind = ''PUNCT'' then
              yield (Token ''PUNCT'' val line col) (tokenize_loop U code line line_start end_mo)
            else if kind = ''MISMATCH'' then ([], Some (SyntaxError val line col))
            else tokenize_loop U code line line_start end_mo)"
  by pat_completeness auto
termination
  by (relation "measure (\<lambda>(U, code, line, line_start, pos). length code - pos)")
    (auto dest!: MASTER_PATTERN_match_bounds)

text \<open>\<open>tokenize(code)\<close>: the loop from \<open>line = 1\<close>, \<open>line_start = 0\<close>, \<open>pos = 0\<close>.\<close>

definition tokenize :: "unicode \<Rightarrow> pystr \<Rightarrow> token list \<times> error option" where
  "tokenize U code = tokenize_loop U code 1 0 0"

section \<open>The turns of the loop\<close>

text \<open>
  What the loop sees at each turn: the group that matched, \<open>start()\<close> and \<open>end()\<close> of
  the match, and \<open>line\<close> and \<open>line_start\<close> as they are when the turn begins. The turn
  that meets \<open>MISMATCH\<close> is the last one, since it raises.
\<close>

record lexeme =
  lx_kind :: string
  lx_start :: nat
  lx_end :: nat
  lx_line :: int
  lx_line_start :: nat

function scan :: "unicode \<Rightarrow> pystr \<Rightarrow> int \<Rightarrow> nat \<Rightarrow> nat \<Rightarrow> lexeme list" where
  "scan U code line line_start pos =
     (case MASTER_PATTERN_match U code pos of
        None \<Rightarrow> []
      | Some (kind, end_mo) \<Rightarrow>
          \<lparr>lx_kind = kind, lx_start = pos, lx_end = end_mo, lx_line = line,
            lx_line_start = line_start\<rparr> #
          (if kind = ''NEWLINE'' then scan U code (line + 1) end_mo end_mo
           else if kind = ''MISMATCH'' then []
           else scan U code line line_start end_mo))"
  by pat_completeness auto
termination
  by (relation "measure (\<lambda>(U, code, line, line_start, pos). length code - pos)")
    (auto dest!: MASTER_PATTERN_match_bounds)

text \<open>The matched text \<open>mo.group(kind)\<close> and the column \<open>mo.start() - line_start + 1\<close> of a turn.\<close>

definition lx_text :: "pystr \<Rightarrow> lexeme \<Rightarrow> pystr" where
  "lx_text code l = slice code (lx_start l) (lx_end l)"

definition lx_column :: "lexeme \<Rightarrow> int" where
  "lx_column l = int (lx_start l) - int (lx_line_start l) + 1"

text \<open>The turns of \<open>tokenize(code)\<close>.\<close>

definition lexemes :: "unicode \<Rightarrow> pystr \<Rightarrow> lexeme list" where
  "lexemes U code = scan U code 1 0 0"

text \<open>
  Tables that hold nothing beyond ASCII: on ASCII input every choice of tables gives the
  same run.
\<close>

definition no_unicode :: unicode where
  "no_unicode = \<lparr>decimal = (\<lambda>_. False), alnum = (\<lambda>_. False)\<rparr>"

declare tokenize_loop.simps [simp del] scan.simps [simp del]

text \<open>The turns that yield a token, and the token such a turn yields.\<close>

definition emits :: "lexeme \<Rightarrow> bool" where
  "emits l \<longleftrightarrow> lx_kind l \<in> {''ID'', ''NUMBER'', ''STRING'', ''OP'', ''PUNCT''}"

definition token_of :: "pystr \<Rightarrow> lexeme \<Rightarrow> token" where
  "token_of code l =
     Token (if lx_kind l = ''ID''
            then (if lx_text code l \<in> KEYWORDS then ''KEYWORD'' else ''IDENT'')
            else lx_kind l)
       (lx_text code l) (lx_line l) (lx_column l)"

text \<open>The turns that met a standalone line feed.\<close>

definition newlines :: "lexeme list \<Rightarrow> lexeme list" where
  "newlines tr = filter (\<lambda>l. lx_kind l = ''NEWLINE'') tr"

text \<open>
  The line and the line start after the turns \<open>tr\<close> of a run that began at \<open>line\<close> and
  \<open>line_start\<close>: one line more for each standalone line feed, and the line starts where
  the last of them ended.
\<close>

definition line_after :: "int \<Rightarrow> lexeme list \<Rightarrow> int" where
  "line_after line tr = line + int (length (newlines tr))"

definition line_start_after :: "nat \<Rightarrow> lexeme list \<Rightarrow> nat" where
  "line_start_after line_start tr =
     (if newlines tr = [] then line_start else lx_end (last (newlines tr)))"

text \<open>
  The outcome of a run, read off its turns: the tokens of the turns that yield one, then
  the error if the last turn met \<open>MISMATCH\<close>, and the \<open>EOF\<close> token otherwise.
\<close>

definition outcome :: "pystr \<Rightarrow> int \<Rightarrow> nat \<Rightarrow> lexeme list \<Rightarrow> token list \<times> error option" where
  "outcome code line ls tr =
     (if tr \<noteq> [] \<and> lx_kind (last tr) = ''MISMATCH''
      then (map (token_of code) (filter emits tr),
            Some (SyntaxError (lx_text code (last tr)) (lx_line (last tr)) (lx_column (last tr))))
      else (map (token_of code) (filter emits tr) @
              [Token ''EOF'' [] (line_after line tr)
                 (int (length code) - int (line_start_after ls tr) + 1)],
            None))"

section \<open>The input without whitespace and comments\<close>

text \<open>
  What the round trip is compared with is read off the input alone, in the words of the
  specification, with no look at what the scanner matched.
\<close>

text \<open>Whitespace: space, tab, carriage return and line feed.\<close>

definition is_whitespace :: "nat \<Rightarrow> bool" where
  "is_whitespace c \<longleftrightarrow>
     c = of_char CHR '' '' \<or> c = of_char (CHR 0x09) \<or> c = of_char (CHR 0x0D) \<or>
     c = of_char (CHR 0x0A)"

text \<open>
  A comment at the head of \<open>s\<close>: \<open>//\<close> through the end of the line (the line feed is not
  part of it), or \<open>/*\<close> through the nearest \<open>*/\<close> that follows. The result is the number
  of characters of the comment.
\<close>

definition comment_length :: "pystr \<Rightarrow> nat option" where
  "comment_length s =
     (if take 2 s = py ''//'' then Some (length (takeWhile (\<lambda>c. c \<noteq> LF) s))
      else if take 2 s = py ''/*'' then
        map_option (\<lambda>k. k + 2) (List.find (\<lambda>k. take 2 (drop k s) = py ''*/'') [2..<length s])
      else None)"

text \<open>
  A string literal at the head of \<open>s\<close>: a double quote, then zero or more of a backslash
  followed by any character, or any character except quote and backslash, then a closing
  double quote. \<open>literal_items\<close> counts the characters between the quotes.
\<close>

fun literal_items :: "pystr \<Rightarrow> nat" where
  "literal_items [] = 0"
| "literal_items [c] = (if c = QUOTE \<or> c = BACKSLASH then 0 else 1)"
| "literal_items (c # d # cs) =
     (if c = BACKSLASH then 2 + literal_items cs
      else if c = QUOTE then 0
      else 1 + literal_items (d # cs))"

definition string_literal_length :: "pystr \<Rightarrow> nat option" where
  "string_literal_length s =
     (case s of
        [] \<Rightarrow> None
      | c # cs \<Rightarrow>
          if c = QUOTE \<and> take 1 (drop (literal_items cs) cs) = [QUOTE]
          then Some (literal_items cs + 2) else None)"

lemma comment_length_pos: "comment_length s = Some n \<Longrightarrow> 0 < n"
  by (cases s) (auto simp: comment_length_def py_def LF_def split: if_splits)

lemma string_literal_length_pos: "string_literal_length s = Some n \<Longrightarrow> 0 < n"
  by (auto simp: string_literal_length_def split: list.splits if_splits)

text \<open>
  The input with all whitespace and all comment text deleted, read from left to right:
  where a comment starts it is dropped, a whitespace character is dropped, any other
  character is kept.
\<close>

function without_whitespace_and_comments :: "pystr \<Rightarrow> pystr" where
  "without_whitespace_and_comments [] = []"
| "without_whitespace_and_comments (c # cs) =
     (case comment_length (c # cs) of
        Some n \<Rightarrow> without_whitespace_and_comments (drop n (c # cs))
      | None \<Rightarrow>
          if is_whitespace c then without_whitespace_and_comments cs
          else c # without_whitespace_and_comments cs)"
  by pat_completeness auto
termination
  by (relation "measure length") (auto dest!: comment_length_pos)

text \<open>
  The same, with string literals kept whole: where a string literal starts, all of it is
  kept, whitespace and comment marks inside it included, and the reading goes on after its
  closing quote.
\<close>

function without_whitespace_and_comments_outside_strings :: "pystr \<Rightarrow> pystr" where
  "without_whitespace_and_comments_outside_strings [] = []"
| "without_whitespace_and_comments_outside_strings (c # cs) =
     (case comment_length (c # cs) of
        Some n \<Rightarrow> without_whitespace_and_comments_outside_strings (drop n (c # cs))
      | None \<Rightarrow>
          (case string_literal_length (c # cs) of
             Some n \<Rightarrow>
               take n (c # cs) @ without_whitespace_and_comments_outside_strings (drop n (c # cs))
           | None \<Rightarrow>
               if is_whitespace c then without_whitespace_and_comments_outside_strings cs
               else c # without_whitespace_and_comments_outside_strings cs))"
  by pat_completeness auto
termination
  by (relation "measure length") (auto dest!: comment_length_pos string_literal_length_pos)

section \<open>The loop and its turns\<close>

subsection \<open>What the master pattern returns\<close>

lemma first_match_kinds:
  "first_match (TOKEN_SPECIFICATION U) s = Some (k, n) \<Longrightarrow>
   k \<in> {''NUMBER'', ''ID'', ''STRING'', ''COMMENT'', ''NEWLINE'', ''SKIP'', ''OP'', ''PUNCT'', ''MISMATCH''}"
  by (auto simp: TOKEN_SPECIFICATION_def split: option.splits)

lemma MASTER_PATTERN_match_kinds:
  "MASTER_PATTERN_match U code pos = Some (k, e) \<Longrightarrow>
   k = ''NEWLINE'' \<or> k = ''MISMATCH'' \<or> k \<in> {''SKIP'', ''COMMENT''} \<or>
   k \<in> {''ID'', ''NUMBER'', ''STRING'', ''OP'', ''PUNCT''}"
  by (auto simp: MASTER_PATTERN_match_def dest!: first_match_kinds)

lemma first_match_None: "first_match (TOKEN_SPECIFICATION U) s = None \<longleftrightarrow> s = []"
proof (cases s)
  case Nil
  then show ?thesis
    by (simp add: TOKEN_SPECIFICATION_def match_NUMBER_def match_ID_def match_STRING_def match_COMMENT_def
      match_NEWLINE_def match_SKIP_def match_OP_def match_PUNCT_def match_MISMATCH_def two_char_ops_def py_def)
next
  case (Cons c cs)
  have "match_NEWLINE s \<noteq> None \<or> match_MISMATCH s \<noteq> None"
    using Cons by (simp add: match_NEWLINE_def match_MISMATCH_def)
  then show ?thesis using Cons
    by (auto simp: TOKEN_SPECIFICATION_def split: option.splits)
qed

lemma MASTER_PATTERN_match_None:
  "MASTER_PATTERN_match U code pos = None \<longleftrightarrow> length code \<le> pos"
  by (simp add: MASTER_PATTERN_match_def first_match_None)

lemma kind_cases [consumes 1, case_names nl mm sk em]:
  assumes "MASTER_PATTERN_match U code pos = Some (k, e)"
  obtains (nl) "k = ''NEWLINE''" | (mm) "k = ''MISMATCH''"
      | (sk) "k \<in> {''SKIP'', ''COMMENT''}"
      | (em) "k \<in> {''ID'', ''NUMBER'', ''STRING'', ''OP'', ''PUNCT''}"
  using MASTER_PATTERN_match_kinds [OF assms] by (elim disjE) iprover+

subsection \<open>One turn of the loop, by the kind of the match\<close>

lemma loop_end:
  "MASTER_PATTERN_match U code pos = None \<Longrightarrow>
   tokenize_loop U code line ls pos = ([Token ''EOF'' [] line (int pos - int ls + 1)], None)"
  by (simp add: tokenize_loop.simps)

lemma loop_NEWLINE:
  "MASTER_PATTERN_match U code pos = Some (''NEWLINE'', e) \<Longrightarrow>
   tokenize_loop U code line ls pos = tokenize_loop U code (line + 1) e e"
  by (subst tokenize_loop.simps) simp

lemma loop_skip:
  "MASTER_PATTERN_match U code pos = Some (k, e) \<Longrightarrow> k \<in> {''SKIP'', ''COMMENT''} \<Longrightarrow>
   tokenize_loop U code line ls pos = tokenize_loop U code line ls e"
  by (subst tokenize_loop.simps) auto

lemma loop_emit:
  "MASTER_PATTERN_match U code pos = Some (k, e) \<Longrightarrow>
   k \<in> {''ID'', ''NUMBER'', ''STRING'', ''OP'', ''PUNCT''} \<Longrightarrow>
   tokenize_loop U code line ls pos =
     yield (Token (if k = ''ID'' then (if slice code pos e \<in> KEYWORDS then ''KEYWORD'' else ''IDENT'') else k)
              (slice code pos e) line (int pos - int ls + 1))
       (tokenize_loop U code line ls e)"
  by (subst tokenize_loop.simps) (auto simp: Let_def)

lemma loop_MISMATCH:
  "MASTER_PATTERN_match U code pos = Some (''MISMATCH'', e) \<Longrightarrow>
   tokenize_loop U code line ls pos = ([], Some (SyntaxError (slice code pos e) line (int pos - int ls + 1)))"
  by (subst tokenize_loop.simps) simp

lemma scan_end:
  "MASTER_PATTERN_match U code pos = None \<Longrightarrow> scan U code line ls pos = []"
  by (simp add: scan.simps)

lemma scan_NEWLINE:
  "MASTER_PATTERN_match U code pos = Some (''NEWLINE'', e) \<Longrightarrow>
   scan U code line ls pos =
     \<lparr>lx_kind = ''NEWLINE'', lx_start = pos, lx_end = e, lx_line = line, lx_line_start = ls\<rparr> #
     scan U code (line + 1) e e"
  by (subst scan.simps) simp

lemma scan_MISMATCH:
  "MASTER_PATTERN_match U code pos = Some (''MISMATCH'', e) \<Longrightarrow>
   scan U code line ls pos =
     [\<lparr>lx_kind = ''MISMATCH'', lx_start = pos, lx_end = e, lx_line = line, lx_line_start = ls\<rparr>]"
  by (subst scan.simps) simp

lemma scan_other:
  "MASTER_PATTERN_match U code pos = Some (k, e) \<Longrightarrow> k \<noteq> ''NEWLINE'' \<Longrightarrow> k \<noteq> ''MISMATCH'' \<Longrightarrow>
   scan U code line ls pos =
     \<lparr>lx_kind = k, lx_start = pos, lx_end = e, lx_line = line, lx_line_start = ls\<rparr> #
     scan U code line ls e"
  by (subst scan.simps) simp

subsection \<open>The run is the outcome of its turns\<close>

lemma outcome_Nil:
  "outcome code line ls [] = ([Token ''EOF'' [] line (int (length code) - int ls + 1)], None)"
  by (simp add: outcome_def line_after_def line_start_after_def newlines_def)

lemma outcome_NEWLINE:
  "lx_kind l = ''NEWLINE'' \<Longrightarrow> outcome code line ls (l # tr) = outcome code (line + 1) (lx_end l) tr"
  by (simp add: outcome_def line_after_def line_start_after_def newlines_def emits_def add.assoc)

lemma outcome_skip:
  "lx_kind l \<in> {''SKIP'', ''COMMENT''} \<Longrightarrow> outcome code line ls (l # tr) = outcome code line ls tr"
  by (auto simp: outcome_def line_after_def line_start_after_def newlines_def emits_def)

lemma outcome_emit:
  "lx_kind l \<in> {''ID'', ''NUMBER'', ''STRING'', ''OP'', ''PUNCT''} \<Longrightarrow>
   outcome code line ls (l # tr) = yield (token_of code l) (outcome code line ls tr)"
  by (auto simp: outcome_def line_after_def line_start_after_def newlines_def emits_def yield_def)

lemma outcome_MISMATCH:
  "lx_kind l = ''MISMATCH'' \<Longrightarrow>
   outcome code line ls [l] =
     ([], Some (SyntaxError (lx_text code l) (lx_line l) (lx_column l)))"
  by (simp add: outcome_def emits_def)

lemma tokenize_loop_outcome:
  "pos \<le> length code \<Longrightarrow>
   tokenize_loop U code line ls pos = outcome code line ls (scan U code line ls pos)"
proof (induction "length code - pos" arbitrary: line ls pos rule: less_induct)
  case less
  show ?case
  proof (cases "MASTER_PATTERN_match U code pos")
    case None
    then have "pos = length code"
      using less.prems by (simp add: MASTER_PATTERN_match_None)
    then show ?thesis
      using None by (simp add: loop_end scan_end outcome_Nil)
  next
    case (Some a)
    obtain k e where a: "a = (k, e)" by (cases a)
    have m: "MASTER_PATTERN_match U code pos = Some (k, e)" using Some a by simp
    from MASTER_PATTERN_match_bounds [OF m] have b: "pos < e" "e \<le> length code" by simp_all
    have IH: "tokenize_loop U code line' ls' e = outcome code line' ls' (scan U code line' ls' e)"
      for line' ls'
      using less.hyps [of e] b by simp
    from m show ?thesis
    proof (cases rule: kind_cases)
      case nl
      have m': "MASTER_PATTERN_match U code pos = Some (''NEWLINE'', e)" using m nl by simp
      show ?thesis
        unfolding loop_NEWLINE [OF m'] scan_NEWLINE [OF m'] by (simp add: outcome_NEWLINE IH)
    next
      case mm
      have m': "MASTER_PATTERN_match U code pos = Some (''MISMATCH'', e)" using m mm by simp
      show ?thesis
        unfolding loop_MISMATCH [OF m'] scan_MISMATCH [OF m']
        by (simp add: outcome_MISMATCH lx_text_def lx_column_def)
    next
      case sk
      then have ne: "k \<noteq> ''NEWLINE''" "k \<noteq> ''MISMATCH''" by auto
      show ?thesis
        unfolding loop_skip [OF m sk] scan_other [OF m ne] using sk
        by (simp add: outcome_skip IH)
    next
      case em
      then have ne: "k \<noteq> ''NEWLINE''" "k \<noteq> ''MISMATCH''" by auto
      show ?thesis
        unfolding loop_emit [OF m em] scan_other [OF m ne] using em
        by (simp add: outcome_emit IH token_of_def lx_text_def lx_column_def)
    qed
  qed
qed

lemma lx_text_turn [simp]:
  "lx_text code \<lparr>lx_kind = k, lx_start = s, lx_end = e, lx_line = line, lx_line_start = ls\<rparr> =
   slice code s e"
  by (simp add: lx_text_def)

lemma lx_column_turn [simp]:
  "lx_column \<lparr>lx_kind = k, lx_start = s, lx_end = e, lx_line = line, lx_line_start = ls\<rparr> =
   int s - int ls + 1"
  by (simp add: lx_column_def)

lemma scan_Some:
  "MASTER_PATTERN_match U code pos = Some (k, e) \<Longrightarrow>
   scan U code line ls pos =
     \<lparr>lx_kind = k, lx_start = pos, lx_end = e, lx_line = line, lx_line_start = ls\<rparr> #
     (if k = ''NEWLINE'' then scan U code (line + 1) e e
      else if k = ''MISMATCH'' then []
      else scan U code line ls e)"
  by (subst scan.simps) simp

subsection \<open>Facts about the turns\<close>

text \<open>Induction over the turns of a run.\<close>

lemma scan_induct [consumes 0, case_names stop turn]:
  assumes stop: "\<And>line ls pos. MASTER_PATTERN_match U code pos = None \<Longrightarrow> P line ls pos"
    and turn: "\<And>line ls pos k e.
      MASTER_PATTERN_match U code pos = Some (k, e) \<Longrightarrow> pos < e \<Longrightarrow> e \<le> length code \<Longrightarrow>
      (\<And>line' ls'. P line' ls' e) \<Longrightarrow> P line ls pos"
  shows "P line ls pos"
proof (induction "length code - pos" arbitrary: line ls pos rule: less_induct)
  case less
  show ?case
  proof (cases "MASTER_PATTERN_match U code pos")
    case None
    then show ?thesis by (rule stop)
  next
    case (Some a)
    obtain k e where a: "a = (k, e)" by (cases a)
    have m: "MASTER_PATTERN_match U code pos = Some (k, e)" using Some a by simp
    from MASTER_PATTERN_match_bounds [OF m] have b: "pos < e" "e \<le> length code" by simp_all
    show ?thesis
      by (rule turn [OF m b]) (rule less.hyps, use b in simp)
  qed
qed

lemma scan_turns:
  "l \<in> set (scan U code line ls pos) \<Longrightarrow>
   pos \<le> lx_start l \<and> MASTER_PATTERN_match U code (lx_start l) = Some (lx_kind l, lx_end l)"
proof (induction line ls pos rule: scan_induct [where U = U and code = code])
  case (stop line ls pos)
  then show ?case by (simp add: scan_end)
next
  case (turn line ls pos k e)
  from turn.prems show ?case
    unfolding scan_Some [OF turn.hyps(1)]
    using turn.hyps(1,2) turn.IH by (auto split: if_splits dest: order.strict_implies_order intro: order_trans less_imp_le)
qed

lemma scan_bounds:
  "l \<in> set (scan U code line ls pos) \<Longrightarrow> lx_start l < lx_end l \<and> lx_end l \<le> length code"
  using scan_turns [of l U code line ls pos] MASTER_PATTERN_match_bounds by blast

lemma scan_length: "length (scan U code line ls pos) \<le> length code - pos"
proof (induction line ls pos rule: scan_induct [where U = U and code = code])
  case (stop line ls pos)
  then show ?case by (simp add: scan_end)
next
  case (turn line ls pos k e)
  have "length (scan U code line' ls' e) < length code - pos" for line' ls'
    using turn.IH [of line' ls'] turn.hyps(2,3) by simp
  then show ?case
    unfolding scan_Some [OF turn.hyps(1)] using turn.hyps(2,3) by (simp add: Suc_leI)
qed

text \<open>Only the last turn can meet \<open>MISMATCH\<close>.\<close>

lemma scan_MISMATCH_last:
  "list_all (\<lambda>l. lx_kind l \<noteq> ''MISMATCH'') (butlast (scan U code line ls pos))"
proof (induction line ls pos rule: scan_induct [where U = U and code = code])
  case (stop line ls pos)
  then show ?case by (simp add: scan_end)
next
  case (turn line ls pos k e)
  show ?case
    unfolding scan_Some [OF turn.hyps(1)] using turn.IH by simp
qed

text \<open>The texts of the turns, put together, are the input from the cursor on.\<close>

lemma slice_drop: "pos \<le> e \<Longrightarrow> slice code pos e @ drop e code = drop pos code"
proof -
  assume "pos \<le> e"
  then have "drop (e - pos) (drop pos code) = drop e code" by simp
  with append_take_drop_id [of "e - pos" "drop pos code"] show ?thesis
    by (simp only: slice_def)
qed

lemma scan_concat:
  "list_all (\<lambda>l. lx_kind l \<noteq> ''MISMATCH'') (scan U code line ls pos) \<Longrightarrow>
   concat (map (lx_text code) (scan U code line ls pos)) = drop pos code"
proof (induction line ls pos rule: scan_induct [where U = U and code = code])
  case (stop line ls pos)
  then show ?case by (simp add: scan_end MASTER_PATTERN_match_None)
next
  case (turn line ls pos k e)
  from turn.prems have k: "k \<noteq> ''MISMATCH''"
    unfolding scan_Some [OF turn.hyps(1)] by simp
  from turn.prems k have "concat (map (lx_text code) (scan U code line ls pos)) =
      slice code pos e @ drop e code"
    unfolding scan_Some [OF turn.hyps(1)] using turn.IH
    by (cases "k = ''NEWLINE''") simp_all
  then show ?case using turn.hyps(2) by (simp add: slice_drop)
qed

subsection \<open>Line and line start along the turns\<close>

lemma line_after_Cons:
  "line_after line (l # tr) =
     (if lx_kind l = ''NEWLINE'' then line_after (line + 1) tr else line_after line tr)"
  by (simp add: line_after_def newlines_def)

lemma line_start_after_Cons:
  "line_start_after ls (l # tr) =
     (if lx_kind l = ''NEWLINE'' then line_start_after (lx_end l) tr else line_start_after ls tr)"
  by (simp add: line_start_after_def newlines_def)

lemma line_after_Nil [simp]: "line_after line [] = line"
  by (simp add: line_after_def newlines_def)

lemma line_start_after_Nil [simp]: "line_start_after ls [] = ls"
  by (simp add: line_start_after_def newlines_def)

lemma scan_cursor:
  "i < length (scan U code line ls pos) \<Longrightarrow>
   lx_line (scan U code line ls pos ! i) = line_after line (take i (scan U code line ls pos)) \<and>
   lx_line_start (scan U code line ls pos ! i) =
     line_start_after ls (take i (scan U code line ls pos))"
proof (induction line ls pos arbitrary: i rule: scan_induct [where U = U and code = code])
  case (stop line ls pos)
  then show ?case by (simp add: scan_end)
next
  case (turn line ls pos k e)
  show ?case
  proof (cases i)
    case 0
    then show ?thesis
      unfolding scan_Some [OF turn.hyps(1)] by simp
  next
    case (Suc j)
    with turn.prems show ?thesis
      unfolding scan_Some [OF turn.hyps(1)]
      using turn.IH [of j]
      by (cases "k = ''NEWLINE''"; cases "k = ''MISMATCH''")
        (simp_all add: line_after_Cons line_start_after_Cons)
  qed
qed

lemma scan_line_start_le:
  "ls \<le> pos \<Longrightarrow> l \<in> set (scan U code line ls pos) \<Longrightarrow> lx_line_start l \<le> lx_start l"
proof (induction line ls pos rule: scan_induct [where U = U and code = code])
  case (stop line ls pos)
  then show ?case by (simp add: scan_end)
next
  case (turn line ls pos k e)
  have "ls \<le> e" using turn.prems(1) turn.hyps(2) by simp
  with turn.prems show ?case
    unfolding scan_Some [OF turn.hyps(1)]
    using turn.IH [of ls "line"] turn.IH [of e "line + 1"]
    by (auto split: if_splits)
qed

subsection \<open>What a match of each kind is\<close>

lemma MASTER_PATTERN_match_first:
  "MASTER_PATTERN_match U code pos = Some (k, e) \<Longrightarrow>
   pos \<le> e \<and> first_match (TOKEN_SPECIFICATION U) (drop pos code) = Some (k, e - pos)"
  by (auto simp: MASTER_PATTERN_match_def)

lemma first_match_NUMBER:
  "first_match (TOKEN_SPECIFICATION U) s = Some (''NUMBER'', n) \<Longrightarrow> match_NUMBER U s = Some n"
  by (auto simp: TOKEN_SPECIFICATION_def split: option.splits)

lemma first_match_ID:
  "first_match (TOKEN_SPECIFICATION U) s = Some (''ID'', n) \<Longrightarrow> match_ID U s = Some n"
  by (auto simp: TOKEN_SPECIFICATION_def split: option.splits)

lemma first_match_STRING:
  "first_match (TOKEN_SPECIFICATION U) s = Some (''STRING'', n) \<Longrightarrow> match_STRING s = Some n"
  by (auto simp: TOKEN_SPECIFICATION_def split: option.splits)

lemma first_match_COMMENT:
  "first_match (TOKEN_SPECIFICATION U) s = Some (''COMMENT'', n) \<Longrightarrow> match_COMMENT s = Some n"
  by (auto simp: TOKEN_SPECIFICATION_def split: option.splits)

lemma first_match_NEWLINE:
  "first_match (TOKEN_SPECIFICATION U) s = Some (''NEWLINE'', n) \<Longrightarrow> match_NEWLINE s = Some n"
  by (auto simp: TOKEN_SPECIFICATION_def split: option.splits)

lemma first_match_SKIP:
  "first_match (TOKEN_SPECIFICATION U) s = Some (''SKIP'', n) \<Longrightarrow> match_SKIP s = Some n"
  by (auto simp: TOKEN_SPECIFICATION_def split: option.splits)

lemma first_match_OP:
  "first_match (TOKEN_SPECIFICATION U) s = Some (''OP'', n) \<Longrightarrow> match_OP s = Some n"
  by (auto simp: TOKEN_SPECIFICATION_def split: option.splits)

lemma first_match_PUNCT:
  "first_match (TOKEN_SPECIFICATION U) s = Some (''PUNCT'', n) \<Longrightarrow> match_PUNCT s = Some n"
  by (auto simp: TOKEN_SPECIFICATION_def split: option.splits)

lemma first_match_MISMATCH:
  "first_match (TOKEN_SPECIFICATION U) s = Some (''MISMATCH'', n) \<Longrightarrow>
   match_MISMATCH s = Some n \<and> match_STRING s = None \<and> match_COMMENT s = None"
  by (auto simp: TOKEN_SPECIFICATION_def split: option.splits)

lemma slice_one: "pos < length code \<Longrightarrow> slice code pos (Suc pos) = [code ! pos]"
  by (simp add: slice_def take_Suc_conv_app_nth hd_drop_conv_nth take_Suc)

lemma MISMATCH_one:
  assumes "MASTER_PATTERN_match U code pos = Some (''MISMATCH'', e)"
  shows "e = pos + 1 \<and> pos < length code \<and> slice code pos e = [code ! pos]"
proof -
  from MASTER_PATTERN_match_first [OF assms] have le: "pos \<le> e"
    and "match_MISMATCH (drop pos code) = Some (e - pos)"
    by (auto dest: first_match_MISMATCH)
  then have "e - pos = 1"
    by (auto simp: match_MISMATCH_def split: list.splits if_splits)
  with le have e: "e = pos + 1" by simp
  from MASTER_PATTERN_match_bounds [OF assms] have "pos < length code" by simp
  with e show ?thesis by (simp add: slice_one)
qed

lemma NEWLINE_one:
  assumes "MASTER_PATTERN_match U code pos = Some (''NEWLINE'', e)"
  shows "e = pos + 1 \<and> slice code pos e = [LF]"
proof -
  from MASTER_PATTERN_match_first [OF assms] have le: "pos \<le> e"
    and m: "match_NEWLINE (drop pos code) = Some (e - pos)"
    by (auto dest: first_match_NEWLINE)
  then have "e - pos = 1" and h: "hd (drop pos code) = LF"
    by (auto simp: match_NEWLINE_def split: list.splits if_splits)
  with le have e: "e = pos + 1" by simp
  from MASTER_PATTERN_match_bounds [OF assms] have "pos < length code" by simp
  with e h show ?thesis by (simp add: slice_one hd_drop_conv_nth)
qed

subsection \<open>The run of \<open>tokenize\<close>\<close>

lemma tokenize_outcome: "tokenize U code = outcome code 1 0 (lexemes U code)"
  by (simp add: tokenize_def lexemes_def tokenize_loop_outcome)

lemma last_MISMATCH_iff:
  "(lexemes U code \<noteq> [] \<and> lx_kind (last (lexemes U code)) = ''MISMATCH'') \<longleftrightarrow>
   \<not> list_all (\<lambda>l. lx_kind l \<noteq> ''MISMATCH'') (lexemes U code)"
proof (cases "lexemes U code = []")
  case True
  then show ?thesis by simp
next
  case False
  let ?P = "\<lambda>l. lx_kind l \<noteq> ''MISMATCH''"
  have "list_all ?P (lexemes U code) \<longleftrightarrow>
      list_all ?P (butlast (lexemes U code) @ [last (lexemes U code)])"
    using False by simp
  also have "\<dots> \<longleftrightarrow> list_all ?P (butlast (lexemes U code)) \<and> ?P (last (lexemes U code))"
    by simp
  finally have "list_all ?P (lexemes U code) \<longleftrightarrow>
      list_all ?P (butlast (lexemes U code)) \<and> ?P (last (lexemes U code))" .
  with False show ?thesis
    using scan_MISMATCH_last [of U code 1 0 0] by (simp add: lexemes_def)
qed

lemma tokenize_ok:
  "list_all (\<lambda>l. lx_kind l \<noteq> ''MISMATCH'') (lexemes U code) \<Longrightarrow>
   tokenize U code =
     (map (token_of code) (filter emits (lexemes U code)) @
        [Token ''EOF'' [] (line_after 1 (lexemes U code))
           (int (length code) - int (line_start_after 0 (lexemes U code)) + 1)],
      None)"
  using last_MISMATCH_iff [of U code] by (simp add: tokenize_outcome outcome_def)

lemma tokenize_error:
  "\<not> list_all (\<lambda>l. lx_kind l \<noteq> ''MISMATCH'') (lexemes U code) \<Longrightarrow>
   tokenize U code =
     (map (token_of code) (filter emits (lexemes U code)),
      Some (SyntaxError (lx_text code (last (lexemes U code))) (lx_line (last (lexemes U code)))
        (lx_column (last (lexemes U code)))))"
  using last_MISMATCH_iff [of U code] by (simp add: tokenize_outcome outcome_def)

lemma lexemes_concat:
  "list_all (\<lambda>l. lx_kind l \<noteq> ''MISMATCH'') (lexemes U code) \<Longrightarrow>
   concat (map (lx_text code) (lexemes U code)) = code"
  using scan_concat [of U code 1 0 0] by (simp add: lexemes_def)

lemma lexemes_length: "length (lexemes U code) \<le> length code"
  using scan_length [of U code 1 0 0] by (simp add: lexemes_def)

lemmas scan_defs = lexemes_def scan.simps

lemma lexemes_turn:
  "l \<in> set (lexemes U code) \<Longrightarrow>
   MASTER_PATTERN_match U code (lx_start l) = Some (lx_kind l, lx_end l)"
  using scan_turns [of l U code 1 0 0] by (simp add: lexemes_def)

lemma lexemes_bounds:
  "l \<in> set (lexemes U code) \<Longrightarrow> lx_start l < lx_end l \<and> lx_end l \<le> length code"
  using scan_bounds [of l U code 1 0 0] by (simp add: lexemes_def)

lemma lx_text_nonempty: "l \<in> set (lexemes U code) \<Longrightarrow> lx_text code l \<noteq> []"
  using lexemes_bounds [of l U code] by (simp add: lx_text_def slice_def)

lemma MISMATCH_turn:
  assumes "l \<in> set (lexemes U code)" and "lx_kind l = ''MISMATCH''"
  shows "lx_start l < length code \<and> lx_text code l = [code ! lx_start l]"
proof -
  have "MASTER_PATTERN_match U code (lx_start l) = Some (''MISMATCH'', lx_end l)"
    using lexemes_turn [OF assms(1)] assms(2) by simp
  from MISMATCH_one [OF this] show ?thesis by (auto simp: lx_text_def)
qed

lemma filter_emits_butlast:
  assumes "tr \<noteq> []" and "lx_kind (last tr) = ''MISMATCH''"
  shows "filter emits tr = filter emits (butlast tr)"
proof -
  have "\<not> emits (last tr)" using assms(2) by (simp add: emits_def)
  moreover have "filter emits tr = filter emits (butlast tr @ [last tr])"
    using assms(1) by simp
  ultimately show ?thesis by (simp del: append_butlast_last_id)
qed

lemma token_of_emits:
  "emits l \<Longrightarrow> lx_text code l \<noteq> [] \<Longrightarrow>
   tok_value (token_of code l) \<noteq> [] \<and> tok_type (token_of code l) \<noteq> ''EOF''"
  by (auto simp: emits_def token_of_def Token_def)

lemma tokens_nonempty:
  "list_all (\<lambda>t. tok_value t \<noteq> [] \<and> tok_type t \<noteq> ''EOF'')
     (map (token_of code) (filter emits (lexemes U code)))"
  using token_of_emits lx_text_nonempty by (fastforce simp: list_all_iff)

lemma fst_tokenize:
  "fst (tokenize U code) =
     map (token_of code) (filter emits (lexemes U code)) @
     (if list_all (\<lambda>l. lx_kind l \<noteq> ''MISMATCH'') (lexemes U code)
      then [Token ''EOF'' [] (line_after 1 (lexemes U code))
              (int (length code) - int (line_start_after 0 (lexemes U code)) + 1)]
      else [])"
  by (cases "list_all (\<lambda>l. lx_kind l \<noteq> ''MISMATCH'') (lexemes U code)")
    (simp_all add: tokenize_ok tokenize_error)

text \<open>The tokens picked by their type are the tokens of the turns picked by their kind.\<close>

lemma filter_tokens:
  assumes P: "\<And>l. emits l \<Longrightarrow> P (token_of code l) = Q l"
    and Q: "\<And>l. Q l \<Longrightarrow> emits l"
    and eof: "\<And>l c. \<not> P (Token ''EOF'' [] l c)"
  shows "filter P (fst (tokenize U code)) = map (token_of code) (filter Q (lexemes U code))"
proof -
  have "filter (\<lambda>l. emits l \<and> P (token_of code l)) tr = filter Q tr" for tr
    by (rule filter_cong) (use P Q in auto)
  then show ?thesis
    by (simp add: fst_tokenize filter_map comp_def eof)
qed

lemma STRING_turn:
  assumes "l \<in> set (lexemes U code)" and "lx_kind l = ''STRING''"
  shows "lx_end l \<le> length code \<and> lx_start l + 2 \<le> lx_end l \<and>
    code ! lx_start l = QUOTE \<and> code ! (lx_end l - 1) = QUOTE"
proof -
  let ?p = "lx_start l" and ?e = "lx_end l"
  have m: "MASTER_PATTERN_match U code ?p = Some (''STRING'', ?e)"
    using lexemes_turn [OF assms(1)] assms(2) by simp
  from MASTER_PATTERN_match_first [OF m] have le: "?p \<le> ?e"
    and s: "match_STRING (drop ?p code) = Some (?e - ?p)"
    by (auto dest: first_match_STRING)
  from MASTER_PATTERN_match_bounds [OF m] have b: "?p < ?e" "?e \<le> length code" by simp_all
  from s obtain cs where d: "drop ?p code = QUOTE # cs"
    by (cases "drop ?p code") (auto simp: match_STRING_def split: if_splits)
  from s d obtain r where r: "drop (string_items cs) cs = QUOTE # r"
    and n: "?e - ?p = string_items cs + 2"
    by (auto simp: match_STRING_def split: list.splits if_splits)
  from b have "?p < length code" by simp
  then have h: "code ! ?p = hd (drop ?p code)" by (simp add: hd_drop_conv_nth)
  have k: "string_items cs < length cs" using r by (cases "string_items cs < length cs") auto
  then have "cs ! string_items cs = hd (drop (string_items cs) cs)"
    by (simp add: hd_drop_conv_nth)
  with r have q: "cs ! string_items cs = QUOTE" by simp
  have "cs = drop (Suc ?p) code" using d by (metis drop_Suc list.sel(3) tl_drop)
  then have "cs ! string_items cs = code ! (Suc ?p + string_items cs)"
    using b by simp
  moreover have "Suc ?p + string_items cs = ?e - 1" using n le by simp
  ultimately have "code ! (?e - 1) = QUOTE" using q by simp
  with h d b n show ?thesis by simp
qed

lemma lexemes_cursor:
  "i < length (lexemes U code) \<Longrightarrow>
   lx_line (lexemes U code ! i) = line_after 1 (take i (lexemes U code)) \<and>
   lx_line_start (lexemes U code ! i) = line_start_after 0 (take i (lexemes U code))"
  using scan_cursor [of i U code 1 0 0] by (simp add: lexemes_def)

lemma lexemes_line_start_le:
  "l \<in> set (lexemes U code) \<Longrightarrow> lx_line_start l \<le> lx_start l"
  using scan_line_start_le [of 0 0 l U code 1] by (simp add: lexemes_def)

lemma NEWLINE_turn:
  assumes "l \<in> set (lexemes U code)" and "lx_kind l = ''NEWLINE''"
  shows "lx_text code l = [LF]"
proof -
  have "MASTER_PATTERN_match U code (lx_start l) = Some (''NEWLINE'', lx_end l)"
    using lexemes_turn [OF assms(1)] assms(2) by simp
  from NEWLINE_one [OF this] show ?thesis by (auto simp: lx_text_def)
qed

lemma token_positions:
  "map (\<lambda>t. (tok_line t, tok_column t)) (filter (\<lambda>t. tok_type t \<noteq> ''EOF'') (fst (tokenize U code))) =
   map (\<lambda>l. (lx_line l, int (lx_start l) - int (lx_line_start l) + 1))
     (filter emits (lexemes U code))"
proof -
  have "filter (\<lambda>t. tok_type t \<noteq> ''EOF'') (fst (tokenize U code)) =
      map (token_of code) (filter emits (lexemes U code))"
    by (rule filter_tokens) (auto simp: emits_def token_of_def Token_def)
  then show ?thesis
    by (simp add: comp_def token_of_def Token_def lx_column_def)
qed

lemma lexemes_kinds:
  "l \<in> set (lexemes U code) \<Longrightarrow>
   lx_kind l = ''NEWLINE'' \<or> lx_kind l = ''MISMATCH'' \<or> lx_kind l \<in> {''SKIP'', ''COMMENT''} \<or>
   lx_kind l \<in> {''ID'', ''NUMBER'', ''STRING'', ''OP'', ''PUNCT''}"
  using lexemes_turn [of l U code] by (rule MASTER_PATTERN_match_kinds)

subsection \<open>A double quote at the cursor\<close>

text \<open>
  A double quote is unescaped when the backslashes that stand right before it are even in
  number. \<open>s\<close> is the text after the opening quote, \<open>k\<close> a position in it.
\<close>

definition backslashes_before :: "pystr \<Rightarrow> nat \<Rightarrow> nat" where
  "backslashes_before s k = length (takeWhile (\<lambda>c. c = BACKSLASH) (rev (take k s)))"

definition unescaped_quote :: "pystr \<Rightarrow> nat \<Rightarrow> bool" where
  "unescaped_quote s k \<longleftrightarrow> k < length s \<and> s ! k = QUOTE \<and> even (backslashes_before s k)"

text \<open>At a double quote only \<open>STRING\<close> or \<open>MISMATCH\<close> can match.\<close>

lemma first_match_QUOTE:
  "first_match (TOKEN_SPECIFICATION U) (QUOTE # cs) =
     (case match_STRING (QUOTE # cs) of
        Some n \<Rightarrow> Some (''STRING'', n)
      | None \<Rightarrow> Some (''MISMATCH'', 1))"
  by (simp add: TOKEN_SPECIFICATION_def match_NUMBER_def match_ID_def match_COMMENT_def
      match_NEWLINE_def match_SKIP_def match_OP_def match_PUNCT_def match_MISMATCH_def
      is_digit_def is_id_start_def is_blank_def ascii_digit_def ascii_letter_def
      two_char_ops_def one_char_ops_def punct_chars_def LF_def QUOTE_def py_def
      split: option.splits list.splits)

lemma MASTER_PATTERN_match_QUOTE:
  assumes "pos < length code" and "code ! pos = QUOTE"
  shows "MASTER_PATTERN_match U code pos =
     (case match_STRING (drop pos code) of
        Some n \<Rightarrow> Some (''STRING'', pos + n)
      | None \<Rightarrow> Some (''MISMATCH'', pos + 1))"
proof -
  from assms have "drop pos code = QUOTE # drop (Suc pos) code"
    by (metis Cons_nth_drop_Suc)
  then show ?thesis
    by (simp add: MASTER_PATTERN_match_def first_match_QUOTE split: option.splits)
qed

lemma MISMATCH_is_last:
  assumes l: "l \<in> set (lexemes U code)" and mm: "lx_kind l = ''MISMATCH''"
  shows "l = last (lexemes U code)"
proof -
  from l have ne: "lexemes U code \<noteq> []" by auto
  have "l \<notin> set (butlast (lexemes U code))"
    using scan_MISMATCH_last [of U code 1 0 0] mm by (auto simp: lexemes_def list_all_iff)
  moreover have "set (lexemes U code) =
      set (butlast (lexemes U code)) \<union> {last (lexemes U code)}"
    using ne by (metis append_butlast_last_id set_append list.set(1) list.set(2)
        Un_insert_right sup_bot.right_neutral insert_is_Un)
  ultimately show ?thesis using l by auto
qed

text \<open>The items of a string body leave an even number of backslashes at their end.\<close>

lemma string_items_even:
  "even (length (takeWhile (\<lambda>c. c = BACKSLASH) (rev pre))) \<Longrightarrow>
   even (length (takeWhile (\<lambda>c. c = BACKSLASH) (rev (pre @ take (string_items cs) cs))))"
proof (induction cs arbitrary: pre rule: string_items.induct)
  case 1
  then show ?case by simp
next
  case (2 c)
  then show ?case by simp
next
  case (3 c d cs)
  show ?case
  proof (cases "c = BACKSLASH")
    case True
    show ?thesis
    proof (cases "d = LF")
      case True
      with \<open>c = BACKSLASH\<close> "3.prems" show ?thesis by simp
    next
      case False
      have "even (length (takeWhile (\<lambda>c. c = BACKSLASH) (rev (pre @ [c, d]))))"
        using "3.prems" True by simp
      from "3.IH"(1) [OF True False this] show ?thesis
        using True False by simp
    qed
  next
    case False
    show ?thesis
    proof (cases "c = QUOTE")
      case True
      with False "3.prems" show ?thesis by simp
    next
      case q: False
      have "even (length (takeWhile (\<lambda>c. c = BACKSLASH) (rev (pre @ [c]))))"
        using False by simp
      from "3.IH"(2) [OF False q this] show ?thesis
        using False q by simp
    qed
  qed
qed

lemma match_STRING_unescaped:
  assumes "match_STRING (QUOTE # cs) = Some n"
  shows "unescaped_quote cs (string_items cs)"
proof -
  from assms obtain r where r: "drop (string_items cs) cs = QUOTE # r"
    by (auto simp: match_STRING_def split: list.splits if_splits)
  then have k: "string_items cs < length cs"
    by (cases "string_items cs < length cs") auto
  then have "cs ! string_items cs = hd (drop (string_items cs) cs)"
    by (simp add: hd_drop_conv_nth)
  with r have q: "cs ! string_items cs = QUOTE" by simp
  have "even (backslashes_before cs (string_items cs))"
    using string_items_even [of "[]" cs] by (simp add: backslashes_before_def)
  with k q show ?thesis by (simp add: unescaped_quote_def)
qed

lemma no_unescaped_quote:
  assumes "\<forall>k. \<not> unescaped_quote (drop (Suc p) code) k"
  shows "match_STRING (drop p code) = None"
proof (cases "drop p code")
  case Nil
  then show ?thesis by (simp add: match_STRING_def)
next
  case (Cons c cs)
  then have cs: "cs = drop (Suc p) code" by (metis drop_Suc list.sel(3) tl_drop)
  show ?thesis
  proof (cases "c = QUOTE")
    case True
    show ?thesis
    proof (cases "match_STRING (QUOTE # cs)")
      case None
      with Cons True show ?thesis by simp
    next
      case (Some n)
      from match_STRING_unescaped [OF this] assms cs show ?thesis by simp
    qed
  next
    case False
    with Cons show ?thesis by (simp add: match_STRING_def)
  qed
qed

text \<open>No token is a lone double quote.\<close>

lemma token_not_QUOTE:
  assumes l: "l \<in> set (lexemes U code)" and e: "emits l"
  shows "lx_text code l \<noteq> [QUOTE]"
proof
  assume t: "lx_text code l = [QUOTE]"
  let ?p = "lx_start l"
  from lexemes_bounds [OF l] have b: "?p < lx_end l" "lx_end l \<le> length code" by simp_all
  then have p: "?p < length code" by simp
  from t b have len: "lx_end l - ?p = 1"
    by (auto simp: lx_text_def slice_def dest!: arg_cong [where f = length])
  then have "lx_end l = Suc ?p" using b by simp
  with t p have q: "code ! ?p = QUOTE" by (simp add: lx_text_def slice_one)
  from lexemes_turn [OF l] MASTER_PATTERN_match_QUOTE [OF p q, of U]
  have "(case match_STRING (drop ?p code) of
        Some n \<Rightarrow> Some (''STRING'', ?p + n)
      | None \<Rightarrow> Some (''MISMATCH'', ?p + 1)) = Some (lx_kind l, lx_end l)" by simp
  with e have s: "lx_kind l = ''STRING''"
    by (auto simp: emits_def split: option.splits)
  from STRING_turn [OF l s] len show False by arith
qed

subsection \<open>Comments and string literals, pattern and words\<close>

text \<open>
  The \<open>COMMENT\<close> pattern matches what the words call a comment: the lazy loop of the
  pattern stops at the nearest \<open>*/\<close>.
\<close>

lemma block_end_find:
  "List.find (\<lambda>k. take 2 (drop (k - i) s) = py ''*/'') [i..<i + length s] =
   map_option (\<lambda>n. n + i - 2) (block_end s)"
proof (induction s arbitrary: i rule: block_end.induct)
  case (1 c d cs)
  have u: "[i..<i + length (c # d # cs)] = i # [Suc i..<Suc i + length (d # cs)]"
    using upt_conv_Cons [of i "i + length (c # d # cs)"] by (simp del: upt_Suc)
  have f: "List.find (\<lambda>k. take 2 (drop (k - i) (c # d # cs)) = py ''*/'')
        [Suc i..<Suc i + length (d # cs)] =
      List.find (\<lambda>k. take 2 (drop (k - Suc i) (d # cs)) = py ''*/'')
        [Suc i..<Suc i + length (d # cs)]"
  proof (rule find_cong [OF refl])
    fix k
    assume "k \<in> set [Suc i..<Suc i + length (d # cs)]"
    then have "Suc i \<le> k" by (simp del: upt_Suc)
    then have "k - i = Suc (k - Suc i)" by arith
    then show "(take 2 (drop (k - i) (c # d # cs)) = py ''*/'') =
        (take 2 (drop (k - Suc i) (d # cs)) = py ''*/'')" by simp
  qed
  show ?case
  proof (cases "c = of_char CHR ''*'' \<and> d = of_char CHR ''/''")
    case True
    then show ?thesis unfolding u by (simp add: py_def del: upt_Suc)
  next
    case False
    have "List.find (\<lambda>k. take 2 (drop (k - i) (c # d # cs)) = py ''*/'') [i..<i + length (c # d # cs)] =
        List.find (\<lambda>k. take 2 (drop (k - i) (c # d # cs)) = py ''*/'')
          [Suc i..<Suc i + length (d # cs)]"
      unfolding u using False by (auto simp: py_def simp del: upt_Suc)
    also have "\<dots> = map_option (\<lambda>n. n + Suc i - 2) (block_end (d # cs))"
      unfolding f by (rule "1.IH" [OF False])
    also have "\<dots> = map_option (\<lambda>n. n + i - 2) (block_end (c # d # cs))"
      using False by (cases "block_end (d # cs)") auto
    finally show ?thesis .
  qed
qed (simp_all add: py_def)

lemma match_COMMENT_comment_length: "match_COMMENT s = comment_length s"
proof (cases s)
  case Nil
  then show ?thesis by (simp add: match_COMMENT_def comment_length_def py_def)
next
  case (Cons c r)
  show ?thesis
  proof (cases r)
    case Nil
    with Cons show ?thesis by (simp add: match_COMMENT_def comment_length_def py_def)
  next
    case (Cons d cs)
    with \<open>s = c # r\<close> have s: "s = c # d # cs" by simp
    show ?thesis
    proof (cases "c = of_char CHR ''/'' \<and> d = of_char CHR ''/''")
      case True
      then show ?thesis
        using s by (simp add: match_COMMENT_def comment_length_def py_def LF_def)
    next
      case False
      show ?thesis
      proof (cases "c = of_char CHR ''/'' \<and> d = of_char CHR ''*''")
        case True
        have "List.find (\<lambda>k. take 2 (drop k s) = py ''*/'') [2..<length s] =
            List.find (\<lambda>k. take 2 (drop (k - 2) cs) = py ''*/'') [2..<2 + length cs]"
        proof (rule find_cong)
          show "[2..<length s] = [2..<2 + length cs]" by (simp add: s del: upt_Suc)
          fix k
          assume "k \<in> set [2..<2 + length cs]"
          then have "2 \<le> k" by (simp del: upt_Suc)
          then obtain m where "k = Suc (Suc m)" by (cases k; cases "k - 1") auto
          then have "drop k s = drop (k - 2) cs" by (simp add: s)
          then show "(take 2 (drop k s) = py ''*/'') = (take 2 (drop (k - 2) cs) = py ''*/'')"
            by simp
        qed
        also have "\<dots> = map_option (\<lambda>n. n + 2 - 2) (block_end cs)"
          by (rule block_end_find)
        finally have f: "List.find (\<lambda>k. take 2 (drop k s) = py ''*/'') [2..<length s] = block_end cs"
          by (simp add: option.map_ident)
        have "match_COMMENT s = map_option (\<lambda>k. k + 2) (block_end cs)"
          using s True by (cases "block_end cs") (simp_all add: match_COMMENT_def)
        moreover have "comment_length s =
            map_option (\<lambda>k. k + 2) (List.find (\<lambda>k. take 2 (drop k s) = py ''*/'') [2..<length s])"
          using s True by (simp add: comment_length_def py_def del: upt_Suc)
        ultimately show ?thesis by (simp only: f)
      next
        case no: False
        with False show ?thesis
          using s by (auto simp: match_COMMENT_def comment_length_def py_def)
      qed
    qed
  qed
qed

text \<open>
  Where the \<open>STRING\<close> pattern matches, it matches the string literal of the words. (The
  pattern takes no line feed after a backslash; then it does not match at all.)
\<close>

lemma string_items_literal:
  "take 1 (drop (string_items cs) cs) = [QUOTE] \<Longrightarrow> literal_items cs = string_items cs"
  by (induction cs rule: string_items.induct)
    (auto simp: QUOTE_def BACKSLASH_def LF_def split: if_splits)

lemma match_STRING_literal:
  "match_STRING s = Some n \<Longrightarrow> string_literal_length s = Some n"
proof -
  assume a: "match_STRING s = Some n"
  then obtain cs where s: "s = QUOTE # cs"
    by (cases s) (auto simp: match_STRING_def split: if_splits)
  from a s obtain r where r: "drop (string_items cs) cs = QUOTE # r"
    and n: "n = string_items cs + 2"
    by (auto simp: match_STRING_def split: list.splits if_splits)
  from r have "take 1 (drop (string_items cs) cs) = [QUOTE]" by simp
  from string_items_literal [OF this] r n s show ?thesis
    by (simp add: string_literal_length_def)
qed

subsection \<open>The round trip\<close>

lemma comment_length_None: "c \<noteq> of_char CHR ''/'' \<Longrightarrow> comment_length (c # cs) = None"
  by (simp add: comment_length_def py_def)

lemma string_literal_length_None: "c \<noteq> QUOTE \<Longrightarrow> string_literal_length (c # cs) = None"
  by (simp add: string_literal_length_def)

lemma outside_strings_comment:
  "comment_length s = Some n \<Longrightarrow>
   without_whitespace_and_comments_outside_strings s =
     without_whitespace_and_comments_outside_strings (drop n s)"
  by (cases s) (simp_all add: comment_length_def py_def)

lemma outside_strings_string:
  "comment_length s = None \<Longrightarrow> string_literal_length s = Some n \<Longrightarrow>
   without_whitespace_and_comments_outside_strings s =
     take n s @ without_whitespace_and_comments_outside_strings (drop n s)"
  by (cases s) (simp_all add: string_literal_length_def)

lemma outside_strings_keep:
  "comment_length (c # cs) = None \<Longrightarrow> c \<noteq> QUOTE \<Longrightarrow> \<not> is_whitespace c \<Longrightarrow>
   without_whitespace_and_comments_outside_strings (c # cs) =
     c # without_whitespace_and_comments_outside_strings cs"
  by (simp add: string_literal_length_None)

text \<open>Characters that are neither whitespace nor the start of a comment or of a string.\<close>

lemma outside_strings_plain:
  "\<forall>c\<in>set t. \<not> is_whitespace c \<and> c \<noteq> of_char CHR ''/'' \<and> c \<noteq> QUOTE \<Longrightarrow>
   without_whitespace_and_comments_outside_strings (t @ r) =
     t @ without_whitespace_and_comments_outside_strings r"
  by (induction t) (simp_all add: comment_length_None string_literal_length_None)

lemma outside_strings_whitespace:
  "\<forall>c\<in>set t. is_whitespace c \<Longrightarrow>
   without_whitespace_and_comments_outside_strings (t @ r) =
     without_whitespace_and_comments_outside_strings r"
proof (induction t)
  case Nil
  then show ?case by simp
next
  case (Cons c t)
  then have w: "is_whitespace c" by simp
  then have "c \<noteq> of_char CHR ''/''" and "c \<noteq> QUOTE"
    by (auto simp: is_whitespace_def QUOTE_def)
  with w Cons show ?case
    by (simp add: comment_length_None string_literal_length_None)
qed

lemma is_digit_plain:
  "is_digit U c \<Longrightarrow> \<not> is_whitespace c \<and> c \<noteq> of_char CHR ''/'' \<and> c \<noteq> QUOTE"
  by (auto simp: is_digit_def ascii_digit_def is_whitespace_def QUOTE_def split: if_splits)

lemma is_word_plain:
  "is_word U c \<Longrightarrow> \<not> is_whitespace c \<and> c \<noteq> of_char CHR ''/'' \<and> c \<noteq> QUOTE"
  by (auto simp: is_word_def ascii_digit_def ascii_letter_def is_whitespace_def QUOTE_def
      split: if_splits)

lemma is_id_start_plain:
  "is_id_start c \<Longrightarrow> \<not> is_whitespace c \<and> c \<noteq> of_char CHR ''/'' \<and> c \<noteq> QUOTE"
  by (auto simp: is_id_start_def ascii_letter_def is_whitespace_def QUOTE_def)

lemma match_NUMBER_plain:
  assumes "match_NUMBER U s = Some n"
  shows "\<forall>c\<in>set (take n s). \<not> is_whitespace c \<and> c \<noteq> of_char CHR ''/'' \<and> c \<noteq> QUOTE"
proof -
  let ?k = "length (takeWhile (is_digit U) s)"
  let ?r = "drop ?k s"
  from assms have n: "n = ?k + fraction U ?r"
    by (auto simp: match_NUMBER_def Let_def split: if_splits)
  have t: "take n s = takeWhile (is_digit U) s @ take (fraction U ?r) ?r"
    using takeWhile_eq_take [of "is_digit U" s] by (simp add: n take_add)
  have a: "\<forall>c\<in>set (takeWhile (is_digit U) s).
      \<not> is_whitespace c \<and> c \<noteq> of_char CHR ''/'' \<and> c \<noteq> QUOTE"
    by (auto dest!: set_takeWhileD is_digit_plain)
  have b: "\<forall>c\<in>set (take (fraction U ?r) ?r).
      \<not> is_whitespace c \<and> c \<noteq> of_char CHR ''/'' \<and> c \<noteq> QUOTE"
  proof (cases ?r)
    case Nil
    then show ?thesis by simp
  next
    case (Cons d ds)
    show ?thesis
    proof (cases "d = of_char CHR ''.'' \<and> takeWhile (is_digit U) ds \<noteq> []")
      case True
      then have "take (fraction U ?r) ?r = d # takeWhile (is_digit U) ds"
        using Cons takeWhile_eq_take [of "is_digit U" ds] by (simp add: fraction_def)
      moreover have "\<not> is_whitespace d \<and> d \<noteq> of_char CHR ''/'' \<and> d \<noteq> QUOTE"
        using True by (simp add: is_whitespace_def QUOTE_def)
      ultimately show ?thesis
        by (auto dest!: set_takeWhileD is_digit_plain)
    next
      case False
      then have "fraction U ?r = 0" using Cons by (auto simp: fraction_def)
      then show ?thesis by simp
    qed
  qed
  from a b show ?thesis unfolding t by auto
qed

lemma match_ID_plain:
  assumes "match_ID U s = Some n"
  shows "\<forall>c\<in>set (take n s). \<not> is_whitespace c \<and> c \<noteq> of_char CHR ''/'' \<and> c \<noteq> QUOTE"
proof -
  from assms obtain c cs where s: "s = c # cs" and c: "is_id_start c"
    and n: "n = 1 + length (takeWhile (is_word U) cs)"
    by (auto simp: match_ID_def split: list.splits if_splits)
  have "take n s = c # takeWhile (is_word U) cs"
    using s n takeWhile_eq_take [of "is_word U" cs] by simp
  then show ?thesis
    using is_id_start_plain [OF c] by (auto dest!: set_takeWhileD is_word_plain)
qed

lemma match_PUNCT_plain:
  assumes "match_PUNCT s = Some n"
  shows "\<forall>c\<in>set (take n s). \<not> is_whitespace c \<and> c \<noteq> of_char CHR ''/'' \<and> c \<noteq> QUOTE"
proof -
  from assms obtain c cs where s: "s = c # cs" and c: "c \<in> set punct_chars" and n: "n = 1"
    by (auto simp: match_PUNCT_def split: list.splits if_splits)
  from c have "\<not> is_whitespace c \<and> c \<noteq> of_char CHR ''/'' \<and> c \<noteq> QUOTE"
    by (auto simp: punct_chars_def py_def is_whitespace_def QUOTE_def)
  with s n show ?thesis by simp
qed

lemma match_SKIP_whitespace:
  assumes "match_SKIP s = Some n"
  shows "\<forall>c\<in>set (take n s). is_whitespace c"
proof -
  from assms have "n = length (takeWhile is_blank s)"
    by (auto simp: match_SKIP_def Let_def split: if_splits)
  then have "take n s = takeWhile is_blank s"
    using takeWhile_eq_take [of is_blank s] by simp
  then show ?thesis
    by (auto dest!: set_takeWhileD simp: is_blank_def is_whitespace_def)
qed

lemma match_NEWLINE_whitespace:
  assumes "match_NEWLINE s = Some n"
  shows "\<forall>c\<in>set (take n s). is_whitespace c"
  using assms
  by (auto simp: match_NEWLINE_def is_whitespace_def LF_def split: list.splits if_splits)

lemma first_match_OP_no_COMMENT:
  "first_match (TOKEN_SPECIFICATION U) s = Some (''OP'', n) \<Longrightarrow> match_COMMENT s = None"
  by (auto simp: TOKEN_SPECIFICATION_def split: option.splits)

lemma match_OP_outside_strings:
  assumes m: "match_OP s = Some n" and c: "comment_length s = None"
  shows "without_whitespace_and_comments_outside_strings s =
     take n s @ without_whitespace_and_comments_outside_strings (drop n s)"
proof (cases "take 2 s \<in> set two_char_ops")
  case True
  with m have n: "n = 2" by (simp add: match_OP_def)
  from True have "\<forall>c\<in>set (take 2 s). \<not> is_whitespace c \<and> c \<noteq> of_char CHR ''/'' \<and> c \<noteq> QUOTE"
    by (auto simp: two_char_ops_def py_def is_whitespace_def QUOTE_def)
  from outside_strings_plain [OF this, of "drop 2 s"] n show ?thesis by simp
next
  case False
  with m obtain d ds where s: "s = d # ds" and d: "d \<in> set one_char_ops" and n: "n = 1"
    by (auto simp: match_OP_def split: list.splits if_splits)
  from d have "d \<noteq> QUOTE" and "\<not> is_whitespace d"
    by (auto simp: one_char_ops_def py_def is_whitespace_def QUOTE_def)
  with c s n show ?thesis by (simp add: string_literal_length_None)
qed

text \<open>One turn of the scan against one step of the reading.\<close>

lemma first_match_outside_strings:
  assumes m: "first_match (TOKEN_SPECIFICATION U) s = Some (k, n)" and k: "k \<noteq> ''MISMATCH''"
  shows "without_whitespace_and_comments_outside_strings s =
     (if k \<in> {''ID'', ''NUMBER'', ''STRING'', ''OP'', ''PUNCT''} then take n s else []) @
     without_whitespace_and_comments_outside_strings (drop n s)"
proof -
  have s: "s = take n s @ drop n s" by simp
  from first_match_kinds [OF m] k
  have "k = ''NUMBER'' \<or> k = ''ID'' \<or> k = ''STRING'' \<or> k = ''COMMENT'' \<or> k = ''NEWLINE'' \<or>
      k = ''SKIP'' \<or> k = ''OP'' \<or> k = ''PUNCT''" by simp
  then show ?thesis
  proof (elim disjE)
    assume e: "k = ''NUMBER''"
    with m have "match_NUMBER U s = Some n" by (simp add: first_match_NUMBER)
    from outside_strings_plain [OF match_NUMBER_plain [OF this], of "drop n s"] e
    show ?thesis by simp
  next
    assume e: "k = ''ID''"
    with m have "match_ID U s = Some n" by (simp add: first_match_ID)
    from outside_strings_plain [OF match_ID_plain [OF this], of "drop n s"] e
    show ?thesis by simp
  next
    assume e: "k = ''STRING''"
    with m have a: "match_STRING s = Some n" by (simp add: first_match_STRING)
    then obtain cs where "s = QUOTE # cs"
      by (cases s) (auto simp: match_STRING_def split: if_splits)
    then have "comment_length s = None"
      by (simp add: comment_length_None QUOTE_def)
    from outside_strings_string [OF this match_STRING_literal [OF a]] e
    show ?thesis by simp
  next
    assume e: "k = ''COMMENT''"
    with m have "match_COMMENT s = Some n" by (simp add: first_match_COMMENT)
    then have "comment_length s = Some n" by (simp add: match_COMMENT_comment_length)
    from outside_strings_comment [OF this] e show ?thesis by simp
  next
    assume e: "k = ''NEWLINE''"
    with m have "match_NEWLINE s = Some n" by (simp add: first_match_NEWLINE)
    from outside_strings_whitespace [OF match_NEWLINE_whitespace [OF this], of "drop n s"] e
    show ?thesis by simp
  next
    assume e: "k = ''SKIP''"
    with m have "match_SKIP s = Some n" by (simp add: first_match_SKIP)
    from outside_strings_whitespace [OF match_SKIP_whitespace [OF this], of "drop n s"] e
    show ?thesis by simp
  next
    assume e: "k = ''OP''"
    with m have a: "match_OP s = Some n" and "match_COMMENT s = None"
      by (simp_all add: first_match_OP first_match_OP_no_COMMENT)
    then have "comment_length s = None" by (simp add: match_COMMENT_comment_length)
    from match_OP_outside_strings [OF a this] e show ?thesis by simp
  next
    assume e: "k = ''PUNCT''"
    with m have "match_PUNCT s = Some n" by (simp add: first_match_PUNCT)
    from outside_strings_plain [OF match_PUNCT_plain [OF this], of "drop n s"] e
    show ?thesis by simp
  qed
qed

lemma scan_outside_strings:
  "list_all (\<lambda>l. lx_kind l \<noteq> ''MISMATCH'') (scan U code line ls pos) \<Longrightarrow>
   concat (map (lx_text code) (filter emits (scan U code line ls pos))) =
     without_whitespace_and_comments_outside_strings (drop pos code)"
proof (induction line ls pos rule: scan_induct [where U = U and code = code])
  case (stop line ls pos)
  then show ?case by (simp add: scan_end MASTER_PATTERN_match_None)
next
  case (turn line ls pos k e)
  from turn.prems have k: "k \<noteq> ''MISMATCH''"
    unfolding scan_Some [OF turn.hyps(1)] by simp
  from MASTER_PATTERN_match_first [OF turn.hyps(1)]
  have f: "first_match (TOKEN_SPECIFICATION U) (drop pos code) = Some (k, e - pos)" by simp
  have d: "drop (e - pos) (drop pos code) = drop e code" using turn.hyps(2) by simp
  have r: "without_whitespace_and_comments_outside_strings (drop pos code) =
      (if k \<in> {''ID'', ''NUMBER'', ''STRING'', ''OP'', ''PUNCT''} then slice code pos e else []) @
      without_whitespace_and_comments_outside_strings (drop e code)"
    using first_match_outside_strings [OF f k] by (simp only: d slice_def)
  have em: "emits \<lparr>lx_kind = kk, lx_start = pos, lx_end = e, lx_line = line, lx_line_start = ls\<rparr> \<longleftrightarrow>
      kk \<in> {''ID'', ''NUMBER'', ''STRING'', ''OP'', ''PUNCT''}" for kk
    by (simp add: emits_def)
  from turn.prems k have "concat (map (lx_text code) (filter emits (scan U code line ls pos))) =
      (if k \<in> {''ID'', ''NUMBER'', ''STRING'', ''OP'', ''PUNCT''} then slice code pos e else []) @
      without_whitespace_and_comments_outside_strings (drop e code)"
    unfolding scan_Some [OF turn.hyps(1)] using turn.IH
    by (cases "k = ''NEWLINE''") (simp_all add: em)
  with r show ?case by simp
qed

lemma lexemes_outside_strings:
  "list_all (\<lambda>l. lx_kind l \<noteq> ''MISMATCH'') (lexemes U code) \<Longrightarrow>
   concat (map (lx_text code) (filter emits (lexemes U code))) =
     without_whitespace_and_comments_outside_strings code"
  using scan_outside_strings [of U code 1 0 0] by (simp add: lexemes_def)

text \<open>Without a double quote in the input there is no string literal to keep.\<close>

lemma outside_strings_no_QUOTE:
  "QUOTE \<notin> set s \<Longrightarrow>
   without_whitespace_and_comments_outside_strings s = without_whitespace_and_comments s"
proof (induction s rule: without_whitespace_and_comments.induct)
  case 1
  then show ?case by simp
next
  case (2 c cs)
  from "2.prems" have q: "c \<noteq> QUOTE" and cs: "QUOTE \<notin> set cs" by simp_all
  show ?case
  proof (cases "comment_length (c # cs)")
    case None
    with "2.IH"(1,2) cs q show ?thesis
      by (simp add: string_literal_length_None)
  next
    case (Some n)
    have "QUOTE \<notin> set (drop n (c # cs))"
      using "2.prems" by (auto dest: in_set_dropD)
    with "2.IH"(3) [OF Some] Some show ?thesis by simp
  qed
qed

subsection \<open>The text of a string token\<close>

lemma string_items_QUOTE [simp]: "string_items (QUOTE # r) = 0"
  by (cases r) (simp_all add: QUOTE_def BACKSLASH_def)

lemma string_items_plain:
  "c \<noteq> QUOTE \<Longrightarrow> c \<noteq> BACKSLASH \<Longrightarrow> xs \<noteq> [] \<Longrightarrow> string_items (c # xs) = 1 + string_items xs"
  by (cases xs) simp_all

lemma string_items_take:
  "string_items (take (string_items cs) cs @ QUOTE # r) = string_items cs"
  by (induction cs rule: string_items.induct)
    (auto simp: string_items_plain, simp_all add: QUOTE_def BACKSLASH_def)

lemma match_STRING_take:
  assumes "match_STRING s = Some n"
  shows "match_STRING (take n s) = Some n \<and> length (take n s) = n \<and> 2 \<le> n \<and>
    hd (take n s) = QUOTE \<and> last (take n s) = QUOTE"
proof -
  from assms obtain cs where s: "s = QUOTE # cs"
    by (cases s) (auto simp: match_STRING_def split: if_splits)
  let ?k = "string_items cs"
  from assms s obtain r where r: "drop ?k cs = QUOTE # r" and n: "n = ?k + 2"
    by (auto simp: match_STRING_def split: list.splits if_splits)
  have cs: "cs = take ?k cs @ QUOTE # r"
    using append_take_drop_id [of ?k cs] r by simp
  have len: "length (take ?k cs) = ?k" using string_items_le [of cs] by simp
  have "take (Suc ?k) cs = take (Suc ?k) (take ?k cs @ QUOTE # r)" using cs by simp
  also have "\<dots> = take ?k cs @ [QUOTE]" using len by simp
  finally have t: "take n s = QUOTE # take ?k cs @ [QUOTE]" using s n by simp
  have "string_items (take ?k cs @ [QUOTE]) = ?k" by (rule string_items_take)
  then have "match_STRING (take n s) = Some n"
    unfolding t using len n by (simp add: match_STRING_def)
  moreover have "length (take n s) = n" using t len n by simp
  ultimately show ?thesis using t n len by simp
qed

section \<open>Runs on given inputs\<close>

text \<open>The definitions a run on a given input unfolds.\<close>

lemmas pattern_defs =
  MASTER_PATTERN_match_def TOKEN_SPECIFICATION_def match_NUMBER_def fraction_def match_ID_def
  match_STRING_def match_COMMENT_def match_NEWLINE_def match_SKIP_def match_OP_def
  match_PUNCT_def match_MISMATCH_def is_digit_def is_word_def is_id_start_def is_blank_def
  ascii_digit_def ascii_letter_def two_char_ops_def one_char_ops_def punct_chars_def
  LF_def QUOTE_def BACKSLASH_def py_def

lemmas run_defs = tokenize_def tokenize_loop.simps KEYWORDS_def slice_def yield_def Token_def

lemma two_char_op_wins:
  "list_all (\<lambda>op. MASTER_PATTERN_match U (pre @ op @ rest) (length pre) = Some (''OP'', length pre + 2))
     two_char_ops"
  by (simp add: pattern_defs)

section \<open>The claims\<close>

text \<open>
  C5. Two-character operators come before the one-character operators: the input \<open>->\<close>
  yields one \<open>OP\<close> token \<open>->\<close> and then \<open>EOF\<close>, the input \<open>==\<close> yields one \<open>OP\<close>
  token \<open>==\<close> and then \<open>EOF\<close>; and wherever the text at the cursor begins with one of
  the seven two-character operators, the match is \<open>OP\<close> and takes both characters. This
  holds for all tables \<open>U\<close>, all text \<open>pre\<close> before the cursor and all text \<open>rest\<close> after
  the operator.
\<close>

theorem C5_two_character_operators_first:
  "tokenize U (py ''->'') = ([Token ''OP'' (py ''->'') 1 1, Token ''EOF'' [] 1 3], None) \<and>
   tokenize U (py ''=='') = ([Token ''OP'' (py ''=='') 1 1, Token ''EOF'' [] 1 3], None) \<and>
   list_all (\<lambda>op. MASTER_PATTERN_match U (pre @ op @ rest) (length pre) = Some (''OP'', length pre + 2))
     two_char_ops"
proof (intro conjI)
  show "tokenize U (py ''->'') = ([Token ''OP'' (py ''->'') 1 1, Token ''EOF'' [] 1 3], None)"
    by (simp add: pattern_defs run_defs)
  show "tokenize U (py ''=='') = ([Token ''OP'' (py ''=='') 1 1, Token ''EOF'' [] 1 3], None)"
    by (simp add: pattern_defs run_defs)
  show "list_all (\<lambda>op. MASTER_PATTERN_match U (pre @ op @ rest) (length pre) = Some (''OP'', length pre + 2))
     two_char_ops"
    by (rule two_char_op_wins)
qed

text \<open>
  C3. For every input in which no turn of the scan meets \<open>MISMATCH\<close> (the turns then
  cover the whole input: their texts, put together, are the input), the run ends without an
  error, and the last token it yields is \<open>EOF\<close> with the empty text. The loop takes at most
  one turn for each character of the input; that it ends on every input is the termination
  of \<open>tokenize_loop\<close>.
\<close>

theorem C3_scan_ends_with_EOF:
  "list_all (\<lambda>l. lx_kind l \<noteq> ''MISMATCH'') (lexemes U code) \<Longrightarrow>
   snd (tokenize U code) = None \<and>
   fst (tokenize U code) \<noteq> [] \<and>
   tok_type (last (fst (tokenize U code))) = ''EOF'' \<and>
   tok_value (last (fst (tokenize U code))) = [] \<and>
   concat (map (lx_text code) (lexemes U code)) = code \<and>
   length (lexemes U code) \<le> length code"
  by (simp add: tokenize_ok lexemes_concat lexemes_length Token_def)

theorem C3_scan_ends_with_EOF_witness:
  "list_all (\<lambda>l. lx_kind l \<noteq> ''MISMATCH'') (lexemes no_unicode (py ''int x'')) \<and>
   snd (tokenize no_unicode (py ''int x'')) = None \<and>
   tok_type (last (fst (tokenize no_unicode (py ''int x'')))) = ''EOF'' \<and>
   tok_value (last (fst (tokenize no_unicode (py ''int x'')))) = []"
proof -
  have h: "list_all (\<lambda>l. lx_kind l \<noteq> ''MISMATCH'') (lexemes no_unicode (py ''int x''))"
    by (simp add: pattern_defs scan_defs)
  from C3_scan_ends_with_EOF [OF h] h show ?thesis by simp
qed

text \<open>
  C4. The scanner has one error, the \<open>SyntaxError\<close> that carries the offending character,
  the line and the column. It is raised exactly when a turn of the scan meets \<open>MISMATCH\<close>:
  the run ends without an error if and only if no turn does. When it is raised, the turn
  that met \<open>MISMATCH\<close> is the last one, the error carries the one character at the start
  of that turn with the line and the column of that turn, and the tokens yielded are those
  of the turns before it: nothing follows, not even \<open>EOF\<close>. On the input \<open>@\<close> the run
  yields no token and raises the error for \<open>@\<close> at line 1, column 1.
\<close>

theorem C4_only_error:
  "(snd (tokenize U code) = None \<longleftrightarrow>
      list_all (\<lambda>l. lx_kind l \<noteq> ''MISMATCH'') (lexemes U code)) \<and>
   (\<forall>e. snd (tokenize U code) = Some e \<longrightarrow>
      lexemes U code \<noteq> [] \<and>
      lx_kind (last (lexemes U code)) = ''MISMATCH'' \<and>
      lx_start (last (lexemes U code)) < length code \<and>
      e = SyntaxError [code ! lx_start (last (lexemes U code))]
            (lx_line (last (lexemes U code))) (lx_column (last (lexemes U code))) \<and>
      fst (tokenize U code) = map (token_of code) (filter emits (butlast (lexemes U code)))) \<and>
   tokenize U (py ''@'') = ([], Some (SyntaxError (py ''@'') 1 1))"
proof (intro conjI allI impI)
  show "snd (tokenize U code) = None \<longleftrightarrow>
      list_all (\<lambda>l. lx_kind l \<noteq> ''MISMATCH'') (lexemes U code)"
    by (cases "list_all (\<lambda>l. lx_kind l \<noteq> ''MISMATCH'') (lexemes U code)")
      (simp_all add: tokenize_ok tokenize_error)
  show "tokenize U (py ''@'') = ([], Some (SyntaxError (py ''@'') 1 1))"
    by (simp add: pattern_defs run_defs)
next
  fix e
  assume e: "snd (tokenize U code) = Some e"
  then have bad: "\<not> list_all (\<lambda>l. lx_kind l \<noteq> ''MISMATCH'') (lexemes U code)"
    by (cases "list_all (\<lambda>l. lx_kind l \<noteq> ''MISMATCH'') (lexemes U code)")
      (simp_all add: tokenize_ok)
  with last_MISMATCH_iff [of U code]
  have ne: "lexemes U code \<noteq> []" and mm: "lx_kind (last (lexemes U code)) = ''MISMATCH''"
    by simp_all
  from ne have "last (lexemes U code) \<in> set (lexemes U code)" by simp
  from MISMATCH_turn [OF this mm]
  have lt: "lx_start (last (lexemes U code)) < length code"
    and tx: "lx_text code (last (lexemes U code)) = [code ! lx_start (last (lexemes U code))]"
    by simp_all
  show "lexemes U code \<noteq> []" by (rule ne)
  show "lx_kind (last (lexemes U code)) = ''MISMATCH''" by (rule mm)
  show "lx_start (last (lexemes U code)) < length code" by (rule lt)
  show "e = SyntaxError [code ! lx_start (last (lexemes U code))]
            (lx_line (last (lexemes U code))) (lx_column (last (lexemes U code)))"
    using e tx by (simp add: tokenize_error [OF bad])
  show "fst (tokenize U code) = map (token_of code) (filter emits (butlast (lexemes U code)))"
    using filter_emits_butlast [OF ne mm] by (simp add: tokenize_error [OF bad])
qed

theorem C4_only_error_witness:
  "snd (tokenize no_unicode (py ''x @'')) = Some (SyntaxError (py ''@'') 1 3) \<and>
   lx_kind (last (lexemes no_unicode (py ''x @''))) = ''MISMATCH'' \<and>
   fst (tokenize no_unicode (py ''x @'')) =
     map (token_of (py ''x @'')) (filter emits (butlast (lexemes no_unicode (py ''x @''))))"
proof -
  have h: "snd (tokenize no_unicode (py ''x @'')) = Some (SyntaxError (py ''@'') 1 3)"
    by (simp add: pattern_defs run_defs)
  note c = C4_only_error [of no_unicode "py ''x @''", THEN conjunct2, THEN conjunct1,
      rule_format, OF h]
  from c h show ?thesis by simp
qed

text \<open>
  C9. On every input, each token the run yields has a text that is not empty and is not
  an \<open>EOF\<close> token, but for the last token of a run that ends without an error: that one
  is the \<open>EOF\<close> token and its text is empty. A run that raises yields no \<open>EOF\<close> token.
\<close>

theorem C9_only_EOF_has_empty_text:
  "(case snd (tokenize U code) of
      None \<Rightarrow>
        fst (tokenize U code) \<noteq> [] \<and>
        tok_type (last (fst (tokenize U code))) = ''EOF'' \<and>
        tok_value (last (fst (tokenize U code))) = [] \<and>
        list_all (\<lambda>t. tok_value t \<noteq> [] \<and> tok_type t \<noteq> ''EOF'') (butlast (fst (tokenize U code)))
    | Some e \<Rightarrow>
        list_all (\<lambda>t. tok_value t \<noteq> [] \<and> tok_type t \<noteq> ''EOF'') (fst (tokenize U code)))"
proof (cases "list_all (\<lambda>l. lx_kind l \<noteq> ''MISMATCH'') (lexemes U code)")
  case True
  show ?thesis
    unfolding tokenize_ok [OF True] using tokens_nonempty [of code U]
    by (simp add: Token_def)
next
  case False
  show ?thesis
    unfolding tokenize_error [OF False] using tokens_nonempty [of code U] by simp
qed

text \<open>
  C2. A block comment with a line feed inside it leaves \<open>line\<close> and \<open>line_start\<close> as they
  were: on \<open>/*\<close>, line feed, \<open>*/x\<close> the token \<open>x\<close> is reported at line 1, column 6, and
  \<open>EOF\<close> at line 1, column 7, where the claim asks for line 2, column 3 and line 2,
  column 4. A line feed that stands alone is counted: the same comment without the line
  feed, followed by a line feed, puts \<open>x\<close> at line 2, column 1.
\<close>

theorem C2_line_feed_inside_comment_not_counted:
  "tokenize U (py ''/*'' @ [LF] @ py ''*/x'') =
     ([Token ''IDENT'' (py ''x'') 1 6, Token ''EOF'' [] 1 7], None) \<and>
   tokenize U (py ''/**/'' @ [LF] @ py ''x'') =
     ([Token ''IDENT'' (py ''x'') 2 1, Token ''EOF'' [] 2 2], None)"
  by (simp add: pattern_defs run_defs)

text \<open>
  C6. The tokens of type \<open>KEYWORD\<close> or \<open>IDENT\<close> of a run are, in order, the tokens of the
  turns that matched \<open>ID\<close>: one for each such turn, with the matched text, of type
  \<open>KEYWORD\<close> if that text is in \<open>KEYWORDS\<close> and of type \<open>IDENT\<close> if it is not. The input
  \<open>int x\<close> yields \<open>KEYWORD int\<close>, \<open>IDENT x\<close>, \<open>EOF\<close>.
\<close>

theorem C6_keyword_iff_in_KEYWORDS:
  "filter (\<lambda>t. tok_type t \<in> {''KEYWORD'', ''IDENT''}) (fst (tokenize U code)) =
     map (\<lambda>l. Token (if lx_text code l \<in> KEYWORDS then ''KEYWORD'' else ''IDENT'')
                 (lx_text code l) (lx_line l) (lx_column l))
       (filter (\<lambda>l. lx_kind l = ''ID'') (lexemes U code)) \<and>
   tokenize U (py ''int x'') =
     ([Token ''KEYWORD'' (py ''int'') 1 1, Token ''IDENT'' (py ''x'') 1 5, Token ''EOF'' [] 1 6],
      None)"
proof
  have "filter (\<lambda>t. tok_type t \<in> {''KEYWORD'', ''IDENT''}) (fst (tokenize U code)) =
      map (token_of code) (filter (\<lambda>l. lx_kind l = ''ID'') (lexemes U code))"
    by (rule filter_tokens) (auto simp: emits_def token_of_def Token_def)
  also have "\<dots> = map (\<lambda>l. Token (if lx_text code l \<in> KEYWORDS then ''KEYWORD'' else ''IDENT'')
                 (lx_text code l) (lx_line l) (lx_column l))
       (filter (\<lambda>l. lx_kind l = ''ID'') (lexemes U code))"
    by (rule map_cong) (simp_all add: token_of_def)
  finally show "filter (\<lambda>t. tok_type t \<in> {''KEYWORD'', ''IDENT''}) (fst (tokenize U code)) =
     map (\<lambda>l. Token (if lx_text code l \<in> KEYWORDS then ''KEYWORD'' else ''IDENT'')
                 (lx_text code l) (lx_line l) (lx_column l))
       (filter (\<lambda>l. lx_kind l = ''ID'') (lexemes U code))" .
  show "tokenize U (py ''int x'') =
     ([Token ''KEYWORD'' (py ''int'') 1 1, Token ''IDENT'' (py ''x'') 1 5, Token ''EOF'' [] 1 6],
      None)"
    by (simp add: pattern_defs run_defs)
qed

text \<open>
  C7. The tokens of a run other than \<open>EOF\<close> carry, in order, the line and the column of
  the turns that yield them: the line of the turn, and the start of the match minus the
  line start of the turn plus 1. At every turn the line is 1 plus the number of earlier
  turns that matched \<open>NEWLINE\<close>, and the line start is the end of the last such turn, or 0
  when there is none; it is never beyond the start of the match, so columns start at 1. A
  turn that matched \<open>NEWLINE\<close> is one line feed. The \<open>EOF\<close> token of a run without error
  carries the line and the line start after all turns, with the length of the input as its
  start. The input \<open>x\<close>, line feed, two spaces, \<open>y\<close> yields \<open>IDENT x\<close> at line 1,
  column 1 and \<open>IDENT y\<close> at line 2, column 3.
\<close>

theorem C7_line_and_column:
  "map (\<lambda>t. (tok_line t, tok_column t)) (filter (\<lambda>t. tok_type t \<noteq> ''EOF'') (fst (tokenize U code))) =
     map (\<lambda>l. (lx_line l, int (lx_start l) - int (lx_line_start l) + 1))
       (filter emits (lexemes U code)) \<and>
   (\<forall>i<length (lexemes U code).
      lx_line (lexemes U code ! i) = 1 + int (length (newlines (take i (lexemes U code)))) \<and>
      lx_line_start (lexemes U code ! i) =
        (if newlines (take i (lexemes U code)) = [] then 0
         else lx_end (last (newlines (take i (lexemes U code))))) \<and>
      lx_line_start (lexemes U code ! i) \<le> lx_start (lexemes U code ! i)) \<and>
   list_all (\<lambda>l. lx_text code l = [LF]) (newlines (lexemes U code)) \<and>
   (snd (tokenize U code) = None \<longrightarrow>
      last (fst (tokenize U code)) =
        Token ''EOF'' [] (1 + int (length (newlines (lexemes U code))))
          (int (length code) -
           int (if newlines (lexemes U code) = [] then 0
                else lx_end (last (newlines (lexemes U code)))) + 1)) \<and>
   tokenize U (py ''x'' @ [LF] @ py ''  y'') =
     ([Token ''IDENT'' (py ''x'') 1 1, Token ''IDENT'' (py ''y'') 2 3, Token ''EOF'' [] 2 4],
      None)"
proof (intro conjI allI impI)
  show "map (\<lambda>t. (tok_line t, tok_column t))
      (filter (\<lambda>t. tok_type t \<noteq> ''EOF'') (fst (tokenize U code))) =
     map (\<lambda>l. (lx_line l, int (lx_start l) - int (lx_line_start l) + 1))
       (filter emits (lexemes U code))"
    by (rule token_positions)
  show "list_all (\<lambda>l. lx_text code l = [LF]) (newlines (lexemes U code))"
    using NEWLINE_turn [of _ U code] by (simp add: list_all_iff newlines_def)
  show "tokenize U (py ''x'' @ [LF] @ py ''  y'') =
     ([Token ''IDENT'' (py ''x'') 1 1, Token ''IDENT'' (py ''y'') 2 3, Token ''EOF'' [] 2 4],
      None)"
    by (simp add: pattern_defs run_defs)
next
  fix i
  assume i: "i < length (lexemes U code)"
  from lexemes_cursor [OF i]
  show "lx_line (lexemes U code ! i) = 1 + int (length (newlines (take i (lexemes U code))))"
    and "lx_line_start (lexemes U code ! i) =
        (if newlines (take i (lexemes U code)) = [] then 0
         else lx_end (last (newlines (take i (lexemes U code)))))"
    by (simp_all add: line_after_def line_start_after_def)
  from i have "lexemes U code ! i \<in> set (lexemes U code)" by simp
  then show "lx_line_start (lexemes U code ! i) \<le> lx_start (lexemes U code ! i)"
    by (rule lexemes_line_start_le)
next
  assume "snd (tokenize U code) = None"
  then have ok: "list_all (\<lambda>l. lx_kind l \<noteq> ''MISMATCH'') (lexemes U code)"
    by (cases "list_all (\<lambda>l. lx_kind l \<noteq> ''MISMATCH'') (lexemes U code)")
      (simp_all add: tokenize_error)
  show "last (fst (tokenize U code)) =
        Token ''EOF'' [] (1 + int (length (newlines (lexemes U code))))
          (int (length code) -
           int (if newlines (lexemes U code) = [] then 0
                else lx_end (last (newlines (lexemes U code)))) + 1)"
    by (simp add: tokenize_ok [OF ok] line_after_def line_start_after_def)
qed

theorem C7_line_and_column_witness:
  "3 < length (lexemes no_unicode (py ''x'' @ [LF] @ py ''  y'')) \<and>
   lx_line (lexemes no_unicode (py ''x'' @ [LF] @ py ''  y'') ! 3) = 2 \<and>
   lx_line_start (lexemes no_unicode (py ''x'' @ [LF] @ py ''  y'') ! 3) = 2 \<and>
   snd (tokenize no_unicode (py ''x'' @ [LF] @ py ''  y'')) = None \<and>
   last (fst (tokenize no_unicode (py ''x'' @ [LF] @ py ''  y''))) = Token ''EOF'' [] 2 4"
proof -
  let ?c = "py ''x'' @ [LF] @ py ''  y''"
  have tr: "lexemes no_unicode ?c =
     [\<lparr>lx_kind = ''ID'', lx_start = 0, lx_end = 1, lx_line = 1, lx_line_start = 0\<rparr>,
      \<lparr>lx_kind = ''NEWLINE'', lx_start = 1, lx_end = 2, lx_line = 1, lx_line_start = 0\<rparr>,
      \<lparr>lx_kind = ''SKIP'', lx_start = 2, lx_end = 4, lx_line = 2, lx_line_start = 2\<rparr>,
      \<lparr>lx_kind = ''ID'', lx_start = 4, lx_end = 5, lx_line = 2, lx_line_start = 2\<rparr>]"
    by (simp add: pattern_defs scan_defs)
  have len: "3 < length (lexemes no_unicode ?c)" using tr by simp
  have ok: "snd (tokenize no_unicode ?c) = None" by (simp add: pattern_defs run_defs)
  note c = C7_line_and_column [of no_unicode ?c]
  note c1 = c [THEN conjunct2, THEN conjunct1, rule_format, OF len]
  note c2 = c [THEN conjunct2, THEN conjunct2, THEN conjunct2, THEN conjunct1, rule_format, OF ok]
  have nl: "newlines (take 3 (lexemes no_unicode ?c)) =
      [\<lparr>lx_kind = ''NEWLINE'', lx_start = 1, lx_end = 2, lx_line = 1, lx_line_start = 0\<rparr>]"
    "newlines (lexemes no_unicode ?c) =
      [\<lparr>lx_kind = ''NEWLINE'', lx_start = 1, lx_end = 2, lx_line = 1, lx_line_start = 0\<rparr>]"
    using tr by (simp_all add: newlines_def)
  from c1 c2 len ok nl show ?thesis by (simp add: py_def)
qed

text \<open>
  C10, as stated, fails: a double quote that begins no string literal raises only when the
  scan comes to it. On \<open>//\<close> followed by a double quote, the quote at offset 2 begins no
  string literal and no quote follows it, yet it lies inside the comment: the run yields
  \<open>EOF\<close> and raises nothing.
\<close>

theorem C10_counterexample:
  "(py ''//'' @ [QUOTE]) ! 2 = QUOTE \<and>
   match_STRING (drop 2 (py ''//'' @ [QUOTE])) = None \<and>
   QUOTE \<notin> set (drop 3 (py ''//'' @ [QUOTE])) \<and>
   tokenize no_unicode (py ''//'' @ [QUOTE]) = ([Token ''EOF'' [] 1 4], None)"
  by (simp add: pattern_defs run_defs)

text \<open>
  C10, amended. On every input, when a turn of the scan starts at a double quote where the
  \<open>STRING\<close> pattern does not match, that turn meets \<open>MISMATCH\<close> and is the last one: the
  run raises the \<open>SyntaxError\<close> for the double quote with the line and the column of that
  turn, the same error as for any other character. The pattern does not match, in
  particular, when no unescaped double quote follows the opening one. No run yields a
  token whose text is a lone double quote.
\<close>

theorem C10_quote_without_string:
  "(\<forall>l\<in>set (lexemes U code).
      code ! lx_start l = QUOTE \<and> match_STRING (drop (lx_start l) code) = None \<longrightarrow>
      lx_kind l = ''MISMATCH'' \<and> l = last (lexemes U code) \<and>
      snd (tokenize U code) = Some (SyntaxError [QUOTE] (lx_line l) (lx_column l))) \<and>
   ((\<forall>k. \<not> unescaped_quote (drop (Suc p) code) k) \<longrightarrow> match_STRING (drop p code) = None) \<and>
   list_all (\<lambda>t. tok_value t \<noteq> [QUOTE]) (fst (tokenize U code))"
proof (intro conjI ballI impI)
  fix l
  assume l: "l \<in> set (lexemes U code)"
    and "code ! lx_start l = QUOTE \<and> match_STRING (drop (lx_start l) code) = None"
  then have q: "code ! lx_start l = QUOTE" and s: "match_STRING (drop (lx_start l) code) = None"
    by simp_all
  from lexemes_bounds [OF l] have p: "lx_start l < length code" by simp
  from lexemes_turn [OF l] MASTER_PATTERN_match_QUOTE [OF p q, of U] s
  show mm: "lx_kind l = ''MISMATCH''" by simp
  from MISMATCH_is_last [OF l mm] show last: "l = last (lexemes U code)" .
  have bad: "\<not> list_all (\<lambda>l. lx_kind l \<noteq> ''MISMATCH'') (lexemes U code)"
    using l mm by (auto simp: list_all_iff)
  from MISMATCH_turn [OF l mm] q have "lx_text code l = [QUOTE]" by simp
  then show "snd (tokenize U code) = Some (SyntaxError [QUOTE] (lx_line l) (lx_column l))"
    using last by (simp add: tokenize_error [OF bad])
next
  assume "\<forall>k. \<not> unescaped_quote (drop (Suc p) code) k"
  then show "match_STRING (drop p code) = None" by (rule no_unescaped_quote)
next
  have "list_all (\<lambda>t. tok_value t \<noteq> [QUOTE])
      (map (token_of code) (filter emits (lexemes U code)))"
    using token_not_QUOTE [of _ U code]
    by (auto simp: list_all_iff token_of_def Token_def)
  then show "list_all (\<lambda>t. tok_value t \<noteq> [QUOTE]) (fst (tokenize U code))"
    by (simp add: fst_tokenize Token_def)
qed

theorem C10_quote_without_string_witness:
  "last (lexemes no_unicode (py ''x '' @ QUOTE # py ''ab'')) \<in>
     set (lexemes no_unicode (py ''x '' @ QUOTE # py ''ab'')) \<and>
   lx_start (last (lexemes no_unicode (py ''x '' @ QUOTE # py ''ab''))) = 2 \<and>
   (py ''x '' @ QUOTE # py ''ab'') ! 2 = QUOTE \<and>
   match_STRING (drop 2 (py ''x '' @ QUOTE # py ''ab'')) = None \<and>
   snd (tokenize no_unicode (py ''x '' @ QUOTE # py ''ab'')) = Some (SyntaxError [QUOTE] 1 3)"
proof -
  let ?c = "py ''x '' @ QUOTE # py ''ab''"
  have tr: "lexemes no_unicode ?c =
     [\<lparr>lx_kind = ''ID'', lx_start = 0, lx_end = 1, lx_line = 1, lx_line_start = 0\<rparr>,
      \<lparr>lx_kind = ''SKIP'', lx_start = 1, lx_end = 2, lx_line = 1, lx_line_start = 0\<rparr>,
      \<lparr>lx_kind = ''MISMATCH'', lx_start = 2, lx_end = 3, lx_line = 1, lx_line_start = 0\<rparr>]"
    by (simp add: pattern_defs scan_defs)
  have l: "last (lexemes no_unicode ?c) \<in> set (lexemes no_unicode ?c)"
    and st: "lx_start (last (lexemes no_unicode ?c)) = 2"
    and li: "lx_line (last (lexemes no_unicode ?c)) = 1"
    and co: "lx_column (last (lexemes no_unicode ?c)) = 3"
    using tr by (simp_all add: lx_column_def)
  have q: "?c ! 2 = QUOTE" and s: "match_STRING (drop 2 ?c) = None"
    by (simp_all add: pattern_defs)
  have h: "?c ! lx_start (last (lexemes no_unicode ?c)) = QUOTE \<and>
      match_STRING (drop (lx_start (last (lexemes no_unicode ?c))) ?c) = None"
    using q s st by simp
  note c = C10_quote_without_string [of no_unicode ?c, THEN conjunct1, rule_format, OF l h]
  from c l st q s li co show ?thesis by simp
qed

text \<open>
  C8. The tokens of type \<open>STRING\<close> of a run are, in order, the tokens of the turns that
  matched \<open>STRING\<close>, and the text of each is the piece of the input from the start of the
  match to its end, character for character: nothing is decoded, backslashes stay. The
  match begins and ends at a double quote of the input. The text of every \<open>STRING\<close>
  token has at least two characters, begins and ends with the double quote, and is as a
  whole one match of the \<open>STRING\<close> pattern. The six characters quote, \<open>a\<close>, backslash,
  quote, \<open>b\<close>, quote yield one \<open>STRING\<close> token whose text is the input, and then
  \<open>EOF\<close>. Inside other text, \<open>p("a\n") x\<close> yields the \<open>STRING\<close> token with the five
  characters quote, \<open>a\<close>, backslash, \<open>n\<close>, quote at column 3, between the tokens of the
  text around it.
\<close>

theorem C8_string_text_verbatim:
  "filter (\<lambda>t. tok_type t = ''STRING'') (fst (tokenize U code)) =
     map (\<lambda>l. Token ''STRING'' (take (lx_end l - lx_start l) (drop (lx_start l) code))
                (lx_line l) (lx_column l))
       (filter (\<lambda>l. lx_kind l = ''STRING'') (lexemes U code)) \<and>
   list_all (\<lambda>l. lx_end l \<le> length code \<and> lx_start l + 2 \<le> lx_end l \<and>
                code ! lx_start l = QUOTE \<and> code ! (lx_end l - 1) = QUOTE)
     (filter (\<lambda>l. lx_kind l = ''STRING'') (lexemes U code)) \<and>
   list_all (\<lambda>t. 2 \<le> length (tok_value t) \<and> hd (tok_value t) = QUOTE \<and>
                last (tok_value t) = QUOTE \<and>
                match_STRING (tok_value t) = Some (length (tok_value t)))
     (filter (\<lambda>t. tok_type t = ''STRING'') (fst (tokenize U code))) \<and>
   tokenize U (QUOTE # py ''a'' @ [BACKSLASH, QUOTE] @ py ''b'' @ [QUOTE]) =
     ([Token ''STRING'' (QUOTE # py ''a'' @ [BACKSLASH, QUOTE] @ py ''b'' @ [QUOTE]) 1 1,
       Token ''EOF'' [] 1 7],
      None) \<and>
   tokenize U (py ''p('' @ QUOTE # py ''a'' @ [BACKSLASH] @ py ''n'' @ [QUOTE] @ py '') x'') =
     ([Token ''IDENT'' (py ''p'') 1 1, Token ''PUNCT'' (py ''('') 1 2,
       Token ''STRING'' (QUOTE # py ''a'' @ [BACKSLASH] @ py ''n'' @ [QUOTE]) 1 3,
       Token ''PUNCT'' (py '')'') 1 8, Token ''IDENT'' (py ''x'') 1 10, Token ''EOF'' [] 1 11],
      None)"
proof (intro conjI)
  let ?v = "\<lambda>l. take (lx_end l - lx_start l) (drop (lx_start l) code)"
  have "filter (\<lambda>t. tok_type t = ''STRING'') (fst (tokenize U code)) =
      map (token_of code) (filter (\<lambda>l. lx_kind l = ''STRING'') (lexemes U code))"
    by (rule filter_tokens) (auto simp: emits_def token_of_def Token_def)
  also have "\<dots> = map (\<lambda>l. Token ''STRING'' (?v l) (lx_line l) (lx_column l))
      (filter (\<lambda>l. lx_kind l = ''STRING'') (lexemes U code))"
    by (rule map_cong) (simp_all add: token_of_def lx_text_def slice_def)
  finally show toks: "filter (\<lambda>t. tok_type t = ''STRING'') (fst (tokenize U code)) =
     map (\<lambda>l. Token ''STRING'' (?v l) (lx_line l) (lx_column l))
       (filter (\<lambda>l. lx_kind l = ''STRING'') (lexemes U code))" .
  show "list_all (\<lambda>l. lx_end l \<le> length code \<and> lx_start l + 2 \<le> lx_end l \<and>
                code ! lx_start l = QUOTE \<and> code ! (lx_end l - 1) = QUOTE)
     (filter (\<lambda>l. lx_kind l = ''STRING'') (lexemes U code))"
    using STRING_turn [of _ U code] by (simp add: list_all_iff)
  have "2 \<le> length (?v l) \<and> hd (?v l) = QUOTE \<and> last (?v l) = QUOTE \<and>
      match_STRING (?v l) = Some (length (?v l))"
    if l: "l \<in> set (lexemes U code)" and k: "lx_kind l = ''STRING''" for l
  proof -
    have "MASTER_PATTERN_match U code (lx_start l) = Some (''STRING'', lx_end l)"
      using lexemes_turn [OF l] k by simp
    from MASTER_PATTERN_match_first [OF this]
    have "match_STRING (drop (lx_start l) code) = Some (lx_end l - lx_start l)"
      by (auto dest: first_match_STRING)
    from match_STRING_take [OF this] show ?thesis by simp
  qed
  then show "list_all (\<lambda>t. 2 \<le> length (tok_value t) \<and> hd (tok_value t) = QUOTE \<and>
                last (tok_value t) = QUOTE \<and>
                match_STRING (tok_value t) = Some (length (tok_value t)))
     (filter (\<lambda>t. tok_type t = ''STRING'') (fst (tokenize U code)))"
    unfolding toks by (simp add: list_all_iff Token_def)
  show "tokenize U (QUOTE # py ''a'' @ [BACKSLASH, QUOTE] @ py ''b'' @ [QUOTE]) =
     ([Token ''STRING'' (QUOTE # py ''a'' @ [BACKSLASH, QUOTE] @ py ''b'' @ [QUOTE]) 1 1,
       Token ''EOF'' [] 1 7],
      None)"
    by (simp add: pattern_defs run_defs)
  show "tokenize U (py ''p('' @ QUOTE # py ''a'' @ [BACKSLASH] @ py ''n'' @ [QUOTE] @ py '') x'') =
     ([Token ''IDENT'' (py ''p'') 1 1, Token ''PUNCT'' (py ''('') 1 2,
       Token ''STRING'' (QUOTE # py ''a'' @ [BACKSLASH] @ py ''n'' @ [QUOTE]) 1 3,
       Token ''PUNCT'' (py '')'') 1 8, Token ''IDENT'' (py ''x'') 1 10, Token ''EOF'' [] 1 11],
      None)"
    by (simp add: pattern_defs run_defs)
qed

text \<open>
  C1, as stated, fails: whitespace inside a string literal is part of the token. On the
  five characters quote, \<open>a\<close>, space, \<open>b\<close>, quote the run ends without an error and
  the texts of its tokens before \<open>EOF\<close>, put together, are the input itself, space
  included; the input with all whitespace and comment text deleted has no space.
\<close>

theorem C1_counterexample:
  "snd (tokenize no_unicode (QUOTE # py ''a b'' @ [QUOTE])) = None \<and>
   concat (map tok_value (butlast (fst (tokenize no_unicode (QUOTE # py ''a b'' @ [QUOTE]))))) =
     QUOTE # py ''a b'' @ [QUOTE] \<and>
   without_whitespace_and_comments (QUOTE # py ''a b'' @ [QUOTE]) = QUOTE # py ''ab'' @ [QUOTE] \<and>
   concat (map tok_value (butlast (fst (tokenize no_unicode (QUOTE # py ''a b'' @ [QUOTE]))))) \<noteq>
     without_whitespace_and_comments (QUOTE # py ''a b'' @ [QUOTE])"
  by (simp add: pattern_defs run_defs is_whitespace_def comment_length_def)

text \<open>
  C1, amended. For every input whose scan ends without an error, the texts of the tokens
  before \<open>EOF\<close>, put together in order, are the input with all whitespace (spaces, tabs,
  carriage returns, line feeds) and all comment text deleted outside string literals: the
  input is read from left to right, a comment (\<open>//\<close> to the end of the line, or \<open>/*\<close>
  through the nearest \<open>*/\<close>) is dropped, a string literal is kept whole with the
  whitespace and the comment marks inside it, any other whitespace character is dropped
  and any other character is kept. For an input with no double quote in it this is the
  claim as it was stated.
\<close>

theorem C1_round_trip:
  "snd (tokenize U code) = None \<Longrightarrow>
   concat (map tok_value (butlast (fst (tokenize U code)))) =
     without_whitespace_and_comments_outside_strings code \<and>
   (QUOTE \<notin> set code \<longrightarrow>
      concat (map tok_value (butlast (fst (tokenize U code)))) =
        without_whitespace_and_comments code)"
proof -
  assume "snd (tokenize U code) = None"
  then have ok: "list_all (\<lambda>l. lx_kind l \<noteq> ''MISMATCH'') (lexemes U code)"
    by (cases "list_all (\<lambda>l. lx_kind l \<noteq> ''MISMATCH'') (lexemes U code)")
      (simp_all add: tokenize_error)
  have "tok_value \<circ> token_of code = lx_text code"
    by (rule ext) (simp add: token_of_def Token_def)
  then have "concat (map tok_value (butlast (fst (tokenize U code)))) =
      concat (map (lx_text code) (filter emits (lexemes U code)))"
    by (simp add: tokenize_ok [OF ok])
  then have a: "concat (map tok_value (butlast (fst (tokenize U code)))) =
      without_whitespace_and_comments_outside_strings code"
    by (simp only: lexemes_outside_strings [OF ok])
  then show ?thesis
    by (simp add: outside_strings_no_QUOTE)
qed

theorem C1_round_trip_witness:
  "snd (tokenize no_unicode
      (py ''s = '' @ QUOTE # py ''a /*b'' @ [QUOTE] @ py '' /*c*/;/*d*/ //e'')) = None \<and>
   concat (map tok_value (butlast (fst (tokenize no_unicode
      (py ''s = '' @ QUOTE # py ''a /*b'' @ [QUOTE] @ py '' /*c*/;/*d*/ //e''))))) =
     py ''s='' @ QUOTE # py ''a /*b'' @ [QUOTE] @ py '';'' \<and>
   without_whitespace_and_comments_outside_strings
      (py ''s = '' @ QUOTE # py ''a /*b'' @ [QUOTE] @ py '' /*c*/;/*d*/ //e'') =
     py ''s='' @ QUOTE # py ''a /*b'' @ [QUOTE] @ py '';'' \<and>
   snd (tokenize no_unicode (py ''x /*a*/ = 1 /*b*/ //c'')) = None \<and>
   QUOTE \<notin> set (py ''x /*a*/ = 1 /*b*/ //c'') \<and>
   concat (map tok_value (butlast (fst (tokenize no_unicode (py ''x /*a*/ = 1 /*b*/ //c''))))) = py ''x=1'' \<and>
   without_whitespace_and_comments (py ''x /*a*/ = 1 /*b*/ //c'') = py ''x=1''"
proof -
  let ?c = "py ''s = '' @ QUOTE # py ''a /*b'' @ [QUOTE] @ py '' /*c*/;/*d*/ //e''"
  let ?d = "py ''x /*a*/ = 1 /*b*/ //c''"
  have h: "snd (tokenize no_unicode ?c) = None"
    by (simp add: pattern_defs run_defs)
  have t: "concat (map tok_value (butlast (fst (tokenize no_unicode ?c)))) =
      py ''s='' @ QUOTE # py ''a /*b'' @ [QUOTE] @ py '';''"
    by (simp add: pattern_defs run_defs)
  have h': "snd (tokenize no_unicode ?d) = None"
    by (simp add: pattern_defs run_defs)
  have t': "concat (map tok_value (butlast (fst (tokenize no_unicode ?d)))) = py ''x=1''"
    by (simp add: pattern_defs run_defs)
  have q: "QUOTE \<notin> set ?d" by (simp add: py_def QUOTE_def)
  note c = C1_round_trip [OF h, THEN conjunct1]
  note d = C1_round_trip [OF h', THEN conjunct2, rule_format, OF q]
  from h t h' t' q c d show ?thesis by simp
qed

end
